theory Spec2Isabelle
  imports Main
begin

section \<open>The layerable automata engine (src/index.ts)\<close>

text \<open>
  The engine keeps a stack of contexts, a FIFO queue of events and a registry of systems.
  Contexts and cargo are JavaScript objects: they are compared by reference
  (\<^verbatim>\<open>c === context\<close>) and mutated in place, so the model keeps them in an explicit store.
  A reference is a natural number; a store is a total function, as every JavaScript
  reference denotes an object.
\<close>

type_synonym ref = nat

subsection \<open>Data model\<close>

text \<open>
  \<^verbatim>\<open>interface Event { type?: string; name?: string; data?: any }\<close>.
  Of the \<^verbatim>\<open>data\<close> field the engine reads only \<^verbatim>\<open>data.systemName\<close> and writes only
  \<^verbatim>\<open>{ systemName }\<close> and \<^verbatim>\<open>{ context }\<close>; every other value is \<open>DataOther\<close>.
  \<open>None\<close> is \<^verbatim>\<open>undefined\<close>.
\<close>

datatype Data = DataSystemName string | DataContext ref | DataOther

record Event =
  type :: "string option"
  name :: "string option"
  data :: "Data option"

text \<open>\<^verbatim>\<open>interface Context<Cargo> { system; currentState; cargo }\<close>; the cargo is a reference.\<close>

record Context =
  system :: string
  currentState :: string
  cargo :: ref

text \<open>
  What a caller-supplied function (a state handler or an \<^verbatim>\<open>onTransition\<close> observer) does with
  the cargo object it is handed: it may mutate it, it may call \<^verbatim>\<open>pushEvent\<close> any number of
  times, and it either returns a value (\<^verbatim>\<open>string | undefined\<close>) or throws (a rejected
  promise is a throw). A handler is awaited before the engine goes on, so it is one atomic
  step of the model.
\<close>

datatype completion = Returns "string option" | Throws

record 'c effect =
  cargo_after :: 'c
  pushed :: "Event option list"
  completion :: completion

text \<open>\<^verbatim>\<open>class State<Cargo> { handler; onTransitionHandler }\<close>\<close>

record 'c State =
  handler :: "Event \<Rightarrow> 'c \<Rightarrow> 'c effect"
  onTransitionHandler :: "(string \<Rightarrow> string \<Rightarrow> 'c \<Rightarrow> 'c effect) option"

text \<open>
  \<^verbatim>\<open>interface System<Cargo> { [key: string]: State<Cargo> }\<close>: a lookup of a missing key is
  \<^verbatim>\<open>undefined\<close>. The registry and the systems are plain objects, so a lookup of a name
  that \<^verbatim>\<open>Object.prototype\<close> has (\<^verbatim>\<open>toString\<close>, \<^verbatim>\<open>constructor\<close>, ...) finds that member
  instead. The model has own keys only: in it such a name is missing like any other name
  that was not registered, so the statements below speak of systems and states whose names
  are not members of \<^verbatim>\<open>Object.prototype\<close>.
\<close>

type_synonym 'c System = "string \<rightharpoonup> 'c State"

text \<open>
  A log of what the engine does to the outside, in the order it happens. It is not a field
  of the source class; it makes the calls of handlers, observers and of the
  \<^verbatim>\<open>onUpdateContexts\<close> hook, and the traffic of the queue, visible in the state.
  \<open>Run role r key e\<close>: the handler of state \<open>key\<close> of the system of context \<open>r\<close> was run with
  event \<open>e\<close>, from \<^verbatim>\<open>do\<close> (\<open>Dispatched\<close>), from the \<^verbatim>\<open>@end\<close> branch (\<open>Ending\<close>) or from
  \<^verbatim>\<open>_finalizeContext\<close> (\<open>Finalizing\<close>).
  \<open>Observed sys key to from cr\<close>: the observer of state \<open>key\<close> of system \<open>sys\<close> was called with
  \<open>(to, from, cargo)\<close>, the cargo being the object at \<open>cr\<close>.
  \<open>Stack rs\<close>: the array \<^verbatim>\<open>this.contexts\<close> was written (by \<^verbatim>\<open>push\<close>, by \<^verbatim>\<open>pop\<close> or by the
  assignment of \<^verbatim>\<open>_removeDescendants\<close>), and \<open>rs\<close> is the stack after the write. Whatever
  reads \<^verbatim>\<open>this.contexts\<close> between two such entries sees the same stack.
  \<open>Moved\<close>: \<^verbatim>\<open>do\<close> saw a transition succeed (where the source stamps \<^verbatim>\<open>latestTransition\<close>).
\<close>

datatype role = Dispatched | Ending | Finalizing

datatype call =
    Pushed Event
  | Shifted Event
  | Run role ref string Event
  | Observed string string string string ref
  | Stack "ref list"
  | UpdateContexts
  | Moved

text \<open>
  \<^verbatim>\<open>class Automata<Cargo>\<close>. \<open>onUpdateContexts\<close> says whether a hook is installed (the hook
  itself only appears in the log). \<open>CargoClass\<close> is the value of a freshly constructed cargo.
  \<open>fresh\<close> is the next unused reference. The fields \<^verbatim>\<open>debug\<close> and \<^verbatim>\<open>latestTransition\<close>
  (a wall-clock time) are left out.
\<close>

record 'c Automata =
  systems :: "string \<rightharpoonup> 'c System"
  contexts :: "ref list"
  events :: "Event list"
  onUpdateContexts :: bool
  CargoClass :: 'c
  ctx_store :: "ref \<Rightarrow> Context"
  cargo_store :: "ref \<Rightarrow> 'c"
  fresh :: ref
  trace :: "call list"

text \<open>A call either returns or raises; the state it leaves behind is kept in both cases.\<close>

datatype error = TypeError | HandlerError

datatype 'a outcome = Returned 'a | Raised error

subsection \<open>Array primitives of JavaScript\<close>

text \<open>\<^verbatim>\<open>Array.prototype.findIndex\<close> with the predicate \<^verbatim>\<open>(c) => c === x\<close>: \<open>-1\<close> when absent.\<close>

fun findIndex :: "'a list \<Rightarrow> 'a \<Rightarrow> int" where
  "findIndex [] x = - 1"
| "findIndex (y # ys) x =
     (if y = x then 0 else (let i = findIndex ys x in if i < 0 then - 1 else i + 1))"

text \<open>\<^verbatim>\<open>Array.prototype.slice(start, end)\<close>: a negative bound counts from the end.\<close>

definition clamp_index :: "nat \<Rightarrow> int \<Rightarrow> nat" where
  "clamp_index len k = (if k < 0 then nat (max (int len + k) 0) else min (nat k) len)"

definition slice :: "'a list \<Rightarrow> int \<Rightarrow> int option \<Rightarrow> 'a list" where
  "slice xs start end_opt =
     (let len = length xs;
          k = clamp_index len start;
          final = (case end_opt of None \<Rightarrow> len | Some e \<Rightarrow> clamp_index len e)
      in take (final - k) (drop k xs))"

text \<open>\<^verbatim>\<open>xs[i]\<close>: \<^verbatim>\<open>undefined\<close> out of range.\<close>

definition at :: "'a list \<Rightarrow> int \<Rightarrow> 'a option" where
  "at xs i = (if 0 \<le> i \<and> i < int (length xs) then Some (xs ! nat i) else None)"

subsection \<open>Queue and hook\<close>

definition empty_event :: Event where
  "empty_event = \<lparr>type = None, name = None, data = None\<rparr>"

text \<open>\<^verbatim>\<open>pushEvent(event?) { this.events.push(event || {}) }\<close>\<close>

definition or_empty :: "Event option \<Rightarrow> Event" where
  "or_empty event = (case event of None \<Rightarrow> empty_event | Some e \<Rightarrow> e)"

definition pushEvent :: "Event option \<Rightarrow> 'c Automata \<Rightarrow> 'c Automata" where
  "pushEvent event s =
     s\<lparr>events := events s @ [or_empty event], trace := trace s @ [Pushed (or_empty event)]\<rparr>"

text \<open>\<^verbatim>\<open>_onUpdateContexts() { if (!this.onUpdateContexts) return; this.onUpdateContexts() }\<close>\<close>

definition notifyUpdateContexts :: "'c Automata \<Rightarrow> 'c Automata" where
  "notifyUpdateContexts s =
     (if onUpdateContexts s then s\<lparr>trace := trace s @ [UpdateContexts]\<rparr> else s)"

text \<open>
  The generator \<^verbatim>\<open>gen\<close> of the constructor: \<^verbatim>\<open>events.shift()\<close>, yielded when there is one;
  otherwise it sleeps and tries again, for ever when nobody pushes. \<open>None\<close> is that case:
  \<^verbatim>\<open>_eventIter.next()\<close> does not resolve.
\<close>

definition nextEvent :: "'c Automata \<Rightarrow> (Event \<times> 'c Automata) option" where
  "nextEvent s =
     (case events s of
        [] \<Rightarrow> None
      | e # es \<Rightarrow> Some (e, s\<lparr>events := es, trace := trace s @ [Shifted e]\<rparr>))"

subsection \<open>Calling caller-supplied functions\<close>

text \<open>The effect of a call on the engine's state: the cargo object is written, the pushes are made.\<close>

definition absorb :: "'c effect \<Rightarrow> ref \<Rightarrow> 'c Automata \<Rightarrow> 'c Automata" where
  "absorb eff cr s =
     fold pushEvent (pushed eff) (s\<lparr>cargo_store := (cargo_store s)(cr := cargo_after eff)\<rparr>)"

text \<open>
  \<^verbatim>\<open>State.run(event, cargo)\<close>, awaited. The first three arguments only label the log entry.
\<close>

definition run ::
  "role \<Rightarrow> ref \<Rightarrow> string \<Rightarrow> 'c State \<Rightarrow> Event \<Rightarrow> ref \<Rightarrow> 'c Automata
     \<Rightarrow> string option outcome \<times> 'c Automata" where
  "run rl r key st event cr s =
     (let eff = handler st event (cargo_store s cr);
          s1 = absorb eff cr (s\<lparr>trace := trace s @ [Run rl r key event]\<rparr>)
      in (case completion eff of
            Returns t \<Rightarrow> (Returned t, s1)
          | Throws \<Rightarrow> (Raised HandlerError, s1)))"

text \<open>
  \<^verbatim>\<open>if (onTransition) { onTransition(to, from, cargo) }\<close> for the observer of state \<open>key\<close>.
\<close>

definition callOnTransition ::
  "'c State \<Rightarrow> string \<Rightarrow> string \<Rightarrow> string \<Rightarrow> string \<Rightarrow> ref \<Rightarrow> 'c Automata
     \<Rightarrow> unit outcome \<times> 'c Automata" where
  "callOnTransition st sys key to from cr s =
     (case onTransitionHandler st of
        None \<Rightarrow> (Returned (), s)
      | Some onTransition \<Rightarrow>
          (let eff = onTransition to from (cargo_store s cr);
               s1 = absorb eff cr (s\<lparr>trace := trace s @ [Observed sys key to from cr]\<rparr>)
           in (case completion eff of
                 Returns t \<Rightarrow> (Returned (), s1)
               | Throws \<Rightarrow> (Raised HandlerError, s1))))"

subsection \<open>Context stack operations\<close>

text \<open>The three events the engine makes itself.\<close>

definition enteredEvent :: "string \<Rightarrow> Event" where
  "enteredEvent systemName =
     \<lparr>type = Some ''automata'', name = Some ''entered'',
      data = Some (DataSystemName systemName)\<rparr>"

definition finalizeEvent :: "ref \<Rightarrow> Event" where
  "finalizeEvent context =
     \<lparr>type = Some ''automata'', name = Some ''finalize'', data = Some (DataContext context)\<rparr>"

definition endEvent :: "ref \<Rightarrow> Event" where
  "endEvent context =
     \<lparr>type = Some ''automata'', name = Some ''end'', data = Some (DataContext context)\<rparr>"

text \<open>
  \<^verbatim>\<open>pushContext(systemName)\<close>. The context is pushed before the system is looked up, so a
  failing lookup leaves it on the stack.
\<close>

definition pushContext :: "string \<Rightarrow> 'c Automata \<Rightarrow> unit outcome \<times> 'c Automata" where
  "pushContext systemName s =
     (let cr = fresh s;
          r = fresh s;
          context = \<lparr>system = systemName, currentState = ''@start'', cargo = cr\<rparr>;
          s1 = s\<lparr>cargo_store := (cargo_store s)(cr := CargoClass s),
                 ctx_store := (ctx_store s)(r := context),
                 fresh := Suc (fresh s),
                 contexts := contexts s @ [r],
                 trace := trace s @ [Stack (contexts s @ [r])]\<rparr>
      in (case systems s1 systemName of
            None \<Rightarrow> (Raised TypeError, s1)
          | Some sys \<Rightarrow>
              (case sys ''@start'' of
                 None \<Rightarrow> (Raised TypeError, s1)
               | Some st \<Rightarrow>
                   (case callOnTransition st systemName ''@start'' systemName ''@start'' cr s1 of
                      (Raised e, s2) \<Rightarrow> (Raised e, s2)
                    | (Returned u, s2) \<Rightarrow>
                        (Returned (),
                         pushEvent (Some (enteredEvent systemName))
                           (notifyUpdateContexts s2))))))"

text \<open>\<^verbatim>\<open>_finalizeContext(context)\<close>\<close>

definition finalizeContext :: "ref \<Rightarrow> 'c Automata \<Rightarrow> unit outcome \<times> 'c Automata" where
  "finalizeContext r s =
     (let c = ctx_store s r
      in (case systems s (system c) of
            None \<Rightarrow> (Raised TypeError, s)
          | Some sys \<Rightarrow>
              (case sys ''@finalize'' of
                 None \<Rightarrow> (Returned (), s)
               | Some finalizeState \<Rightarrow>
                   (case run Finalizing r ''@finalize'' finalizeState (finalizeEvent r)
                           (cargo c) s of
                      (Raised e, s1) \<Rightarrow> (Raised e, s1)
                    | (Returned t, s1) \<Rightarrow> (Returned (), s1)))))"

text \<open>
  The fan-out of \<^verbatim>\<open>_removeDescendants\<close>: \<^verbatim>\<open>.map(async (context) => ...)\<close> starts the
  finalization of every removed context, in stack order, whether or not an earlier one
  failed; the list holds how each one settled. An \<^verbatim>\<open>async\<close> function runs at once up to its
  first \<^verbatim>\<open>await\<close>, so the handlers are called in stack order, before \<^verbatim>\<open>Promise.all\<close> is
  awaited. A handler is one step of this model: handlers that suspend, and then finish in
  another order or after \<^verbatim>\<open>Promise.all\<close> has rejected, are not modelled. When the removed
  contexts have each their own cargo no finalizer sees what another one did to a cargo.
\<close>

fun finalizeEach :: "ref list \<Rightarrow> 'c Automata \<Rightarrow> unit outcome list \<times> 'c Automata" where
  "finalizeEach [] s = ([], s)"
| "finalizeEach (r # rs) s =
     (case finalizeContext r s of
        (out, s1) \<Rightarrow> (case finalizeEach rs s1 of (outs, s2) \<Rightarrow> (out # outs, s2)))"

text \<open>
  \<^verbatim>\<open>await Promise.all(...)\<close> rejects with the rejection that settles first. A failed lookup
  rejects the promise of \<^verbatim>\<open>_finalizeContext\<close> at once, a throwing handler rejects the promise
  of \<^verbatim>\<open>run\<close>, one \<^verbatim>\<open>await\<close> deeper, so a lookup failure is reported before a handler failure.
\<close>

definition promiseAll :: "unit outcome list \<Rightarrow> unit outcome" where
  "promiseAll outs =
     (if Raised TypeError \<in> set outs then Raised TypeError
      else if Raised HandlerError \<in> set outs then Raised HandlerError
      else Returned ())"

text \<open>\<^verbatim>\<open>_removeDescendants(context, withSelf = false)\<close>\<close>

definition removeDescendants ::
  "ref \<Rightarrow> bool \<Rightarrow> 'c Automata \<Rightarrow> unit outcome \<times> 'c Automata" where
  "removeDescendants context withSelf s =
     (let idx = findIndex (contexts s) context;
          k = idx + (if withSelf then 0 else 1);
          newContexts = slice (contexts s) 0 (Some k)
      in (case finalizeEach (slice (contexts s) k None) s of
            (outs, s1) \<Rightarrow>
              (case promiseAll outs of
                 Raised e \<Rightarrow> (Raised e, s1)
               | Returned u \<Rightarrow>
                   (Returned (),
                    s1\<lparr>contexts := newContexts, trace := trace s1 @ [Stack newContexts]\<rparr>))))"

subsection \<open>The transition engine\<close>

text \<open>\<^verbatim>\<open>_transitionTo(stateName, context)\<close>, branch by branch in the order of the source.\<close>

definition transitionEnd :: "ref \<Rightarrow> 'c Automata \<Rightarrow> bool outcome \<times> 'c Automata" where
  "transitionEnd context s =
     (let c = ctx_store s context
      in (case systems s (system c) of
            None \<Rightarrow> (Raised TypeError, s)
          | Some sys \<Rightarrow>
              (case (case sys ''@end'' of
                       None \<Rightarrow> (Returned None, s)
                     | Some endState \<Rightarrow>
                         run Ending context ''@end'' endState (endEvent context) (cargo c) s) of
                 (Raised e, s1) \<Rightarrow> (Raised e, s1)
               | (Returned t, s1) \<Rightarrow>
                   (if contexts s1 = [] then (Returned False, s1)
                    else
                      (let self = last (contexts s1);
                           s2 = s1\<lparr>contexts := butlast (contexts s1),
                                   trace := trace s1 @ [Stack (butlast (contexts s1))]\<rparr>
                       in (case finalizeContext self s2 of
                             (Raised e, s3) \<Rightarrow> (Raised e, s3)
                           | (Returned u, s3) \<Rightarrow> (Returned True, notifyUpdateContexts s3)))))))"

definition transitionCurrent :: "ref \<Rightarrow> 'c Automata \<Rightarrow> bool outcome \<times> 'c Automata" where
  "transitionCurrent context s =
     (case removeDescendants context False s of
        (Raised e, s1) \<Rightarrow> (Raised e, s1)
      | (Returned u, s1) \<Rightarrow>
          (let c = ctx_store s1 context
           in (case systems s1 (system c) of
                 None \<Rightarrow> (Raised TypeError, s1)
               | Some sys \<Rightarrow>
                   (case sys (currentState c) of
                      None \<Rightarrow> (Raised TypeError, s1)
                    | Some st \<Rightarrow>
                        (case callOnTransition st (system c) (currentState c)
                                (currentState c) (currentState c) (cargo c) s1 of
                           (Raised e, s2) \<Rightarrow> (Raised e, s2)
                         | (Returned u, s2) \<Rightarrow>
                             (Returned True,
                              notifyUpdateContexts (notifyUpdateContexts s2)))))))"

text \<open>The tail of the \<^verbatim>\<open>#\<close> branch: truncate below the context, push the child, notify.\<close>

definition enterChild ::
  "string \<Rightarrow> ref \<Rightarrow> 'c Automata \<Rightarrow> bool outcome \<times> 'c Automata" where
  "enterChild systemName context s =
     (case removeDescendants context False s of
        (Raised e, s1) \<Rightarrow> (Raised e, s1)
      | (Returned u, s1) \<Rightarrow>
          (case pushContext systemName s1 of
             (Raised e, s2) \<Rightarrow> (Raised e, s2)
           | (Returned u, s2) \<Rightarrow> (Returned True, notifyUpdateContexts s2)))"

definition transitionChild ::
  "string \<Rightarrow> ref \<Rightarrow> 'c Automata \<Rightarrow> bool outcome \<times> 'c Automata" where
  "transitionChild stateName context s =
     (let systemName = drop 1 stateName;
          idx = findIndex (contexts s) context
      in (if systemName = ''@current'' then enterChild (system (ctx_store s context)) context s
          else if (case at (contexts s) (idx + 1) of
                     None \<Rightarrow> False
                   | Some child \<Rightarrow> systemName = system (ctx_store s child))
          then (Returned False, s)
          else enterChild systemName context s))"

definition transitionState ::
  "string \<Rightarrow> ref \<Rightarrow> 'c Automata \<Rightarrow> bool outcome \<times> 'c Automata" where
  "transitionState stateName context s =
     (case removeDescendants context False s of
        (Raised e, s1) \<Rightarrow> (Raised e, s1)
      | (Returned u, s1) \<Rightarrow>
          (let c = ctx_store s1 context
           in (case systems s1 (system c) of
                 None \<Rightarrow> (Raised TypeError, s1)
               | Some sys \<Rightarrow>
                   (case sys stateName of
                      None \<Rightarrow> (Raised TypeError, s1)
                    | Some st \<Rightarrow>
                        (case callOnTransition st (system c) stateName
                                stateName (currentState c) (cargo c) s1 of
                           (Raised e, s2) \<Rightarrow> (Raised e, s2)
                         | (Returned u, s2) \<Rightarrow>
                             (Returned True,
                              notifyUpdateContexts
                                (s2\<lparr>ctx_store := (ctx_store s2)
                                       (context := (ctx_store s2 context)
                                          \<lparr>currentState := stateName\<rparr>)\<rparr>)))))))"

definition transitionTo ::
  "string \<Rightarrow> ref \<Rightarrow> 'c Automata \<Rightarrow> bool outcome \<times> 'c Automata" where
  "transitionTo stateName context s =
     (if stateName = ''@end'' then transitionEnd context s
      else if stateName = ''@current'' then transitionCurrent context s
      else if stateName = currentState (ctx_store s context) then (Returned False, s)
      else if take 1 stateName = ''#'' then transitionChild stateName context s
      else transitionState stateName context s)"

subsection \<open>The step function\<close>

text \<open>
  The filter of \<^verbatim>\<open>do\<close>:
  \<^verbatim>\<open>event.type == 'automata' && event.name == 'transition' && event.data.systemName != context.system\<close>.
  Reading \<^verbatim>\<open>systemName\<close> of an \<^verbatim>\<open>undefined\<close> \<^verbatim>\<open>data\<close> is a TypeError; a \<^verbatim>\<open>data\<close> without
  that property gives \<^verbatim>\<open>undefined\<close>, which differs from every system name.
\<close>

definition targetsOther :: "Event \<Rightarrow> string \<Rightarrow> bool outcome" where
  "targetsOther event sys =
     (if type event = Some ''automata'' \<and> name event = Some ''transition'' then
        (case data event of
           None \<Rightarrow> Raised TypeError
         | Some (DataSystemName n) \<Rightarrow> Returned (n \<noteq> sys)
         | Some d \<Rightarrow> Returned True)
      else Returned False)"

text \<open>\<^verbatim>\<open>if (nextStateName)\<close>: \<^verbatim>\<open>undefined\<close> and the empty string are falsy.\<close>

definition truthy :: "string option \<Rightarrow> bool" where
  "truthy t = (case t of None \<Rightarrow> False | Some n \<Rightarrow> n \<noteq> [])"

text \<open>
  The body of the loop \<^verbatim>\<open>for (const context of this.contexts)\<close> of \<^verbatim>\<open>do\<close>, for one
  context: \<open>Continue\<close> when the loop goes on with the next context (the \<^verbatim>\<open>continue\<close> of
  the filter, a handler that declines, a transition that is rejected), \<open>Break\<close> at the
  \<^verbatim>\<open>break\<close>.
\<close>

datatype flow = Continue | Break

definition doBody :: "Event \<Rightarrow> ref \<Rightarrow> 'c Automata \<Rightarrow> flow outcome \<times> 'c Automata" where
  "doBody event context s =
     (let c = ctx_store s context
      in (case systems s (system c) of
            None \<Rightarrow> (Raised TypeError, s)
          | Some sys \<Rightarrow>
              (case targetsOther event (system c) of
                 Raised e \<Rightarrow> (Raised e, s)
               | Returned True \<Rightarrow> (Returned Continue, s)
               | Returned False \<Rightarrow>
                   (case sys (currentState c) of
                      None \<Rightarrow> (Raised TypeError, s)
                    | Some state \<Rightarrow>
                        (case run Dispatched context (currentState c) state event (cargo c) s of
                           (Raised e, s1) \<Rightarrow> (Raised e, s1)
                         | (Returned nextStateName, s1) \<Rightarrow>
                             (if truthy nextStateName then
                                (case transitionTo (the nextStateName) context s1 of
                                   (Raised e, s2) \<Rightarrow> (Raised e, s2)
                                 | (Returned True, s2) \<Rightarrow>
                                     (Returned Break, s2\<lparr>trace := trace s2 @ [Moved]\<rparr>)
                                 | (Returned False, s2) \<Rightarrow> (Returned Continue, s2))
                              else (Returned Continue, s1)))))))"

text \<open>
  The loop, from index \<open>i\<close> on. The array iterator reads the array by index, afresh at
  every round. The array that \<^verbatim>\<open>this.contexts\<close> names is replaced only by
  \<^verbatim>\<open>_removeDescendants\<close>, on paths that end in \<^verbatim>\<open>return true\<close> and so in the
  \<^verbatim>\<open>break\<close>; until then the iterated array is \<^verbatim>\<open>this.contexts\<close>.
\<close>

function doLoop :: "Event \<Rightarrow> nat \<Rightarrow> 'c Automata \<Rightarrow> unit outcome \<times> 'c Automata" where
  "doLoop event i s =
     (if i < length (contexts s) then
        (case doBody event (contexts s ! i) s of
           (Raised e, s1) \<Rightarrow> (Raised e, s1)
         | (Returned Break, s1) \<Rightarrow> (Returned (), s1)
         | (Returned Continue, s1) \<Rightarrow> doLoop event (Suc i) s1)
      else (Returned (), s))"
  by pat_completeness auto

text \<open>Facts about the stack that the termination of the loop rests on.\<close>

lemma pushEvent_contexts [simp]: "contexts (pushEvent e s) = contexts s"
  by (simp add: pushEvent_def)

lemma fold_pushEvent_contexts [simp]: "contexts (fold pushEvent es s) = contexts s"
  by (induction es arbitrary: s) simp_all

lemma absorb_contexts [simp]: "contexts (absorb eff cr s) = contexts s"
  by (simp add: absorb_def)

lemma run_contexts: "run rl r key st ev cr s = (out, s') \<Longrightarrow> contexts s' = contexts s"
  by (auto simp: run_def Let_def split: completion.splits)

lemma transitionEnd_False_contexts:
  "transitionEnd r s = (Returned False, s') \<Longrightarrow> contexts s' = contexts s"
  by (auto simp: transitionEnd_def Let_def
      split: option.splits prod.splits outcome.splits if_splits dest: run_contexts)

lemma transitionTo_False_contexts:
  "transitionTo t r s = (Returned False, s') \<Longrightarrow> contexts s' = contexts s"
  by (auto simp: transitionTo_def transitionCurrent_def transitionChild_def enterChild_def
        transitionState_def Let_def
      split: option.splits prod.splits outcome.splits if_splits
      dest: transitionEnd_False_contexts)

lemma doBody_Continue_contexts:
  assumes "doBody event r s = (Returned Continue, s')"
  shows "contexts s' = contexts s"
proof -
  have "s' = s \<or>
    (\<exists>st tok s1. run Dispatched r (currentState (ctx_store s r)) st event
         (cargo (ctx_store s r)) s = (Returned tok, s1) \<and>
       (s' = s1 \<or> transitionTo (the tok) r s1 = (Returned False, s')))"
    using assms
    by (auto simp: doBody_def Let_def
        split: option.splits prod.splits outcome.splits if_splits bool.splits)
  then show ?thesis
    using run_contexts transitionTo_False_contexts by metis
qed

lemma doBody_Continue_contexts_sym:
  "(Returned Continue, s') = doBody event r s \<Longrightarrow> contexts s' = contexts s"
  by (metis doBody_Continue_contexts)

termination doLoop
proof (relation "measure (\<lambda>(e, i, s). length (contexts s) - i)", goal_cases)
  case 1
  show ?case by simp
next
  case 2
  then show ?case
    apply clarsimp
    apply (drule doBody_Continue_contexts_sym)
    apply simp
    done
qed

declare doLoop.simps [simp del]

text \<open>
  \<^verbatim>\<open>do()\<close>. \<open>None\<close>: the queue is empty and the call waits for an event. The generator never
  finishes, so the branch \<^verbatim>\<open>if (!event)\<close> of the source is never taken.
\<close>

definition do :: "'c Automata \<Rightarrow> (bool outcome \<times> 'c Automata) option" where
  "do s =
     (case nextEvent s of
        None \<Rightarrow> None
      | Some (event, s0) \<Rightarrow>
          Some (case doLoop event 0 s0 of
                  (Raised e, s1) \<Rightarrow> (Raised e, s1)
                | (Returned u, s1) \<Rightarrow> (Returned (contexts s1 \<noteq> []), s1)))"

subsection \<open>Registration, and sequences of calls\<close>

text \<open>\<^verbatim>\<open>registerSystem(name, system) { this.systems[name] = system }\<close>\<close>

definition registerSystem :: "string \<Rightarrow> 'c System \<Rightarrow> 'c Automata \<Rightarrow> 'c Automata" where
  "registerSystem n sys s = s\<lparr>systems := (systems s)(n \<mapsto> sys)\<rparr>"

text \<open>The calls an embedder makes, and the state each one leaves, whatever its outcome.\<close>

datatype 'c request =
    RegisterSystem string "'c System"
  | PushContext string
  | PushEvent "Event option"
  | Do

fun perform :: "'c request \<Rightarrow> 'c Automata \<Rightarrow> 'c Automata" where
  "perform (RegisterSystem n sys) s = registerSystem n sys s"
| "perform (PushContext systemName) s = snd (pushContext systemName s)"
| "perform (PushEvent event) s = pushEvent event s"
| "perform Do s = (case do s of None \<Rightarrow> s | Some (out, s') \<Rightarrow> s')"

subsection \<open>Notions used in the statements\<close>

text \<open>
  \<open>handlers_return\<close>: no handler and no observer of a registered system ever throws.
  \<open>is_run\<close> and \<open>is_observed\<close> pick the handler runs and the observer calls out of the log.
  \<open>kept s s'\<close>: \<open>s'\<close> differs from \<open>s\<close> at most in the cargo objects, the queue and the log.
\<close>

definition handlers_return :: "'c Automata \<Rightarrow> bool" where
  "handlers_return s \<longleftrightarrow>
     (\<forall>n sys key st. systems s n = Some sys \<longrightarrow> sys key = Some st \<longrightarrow>
        (\<forall>e c. completion (handler st e c) \<noteq> Throws) \<and>
        (\<forall>f a b c. onTransitionHandler st = Some f \<longrightarrow> completion (f a b c) \<noteq> Throws))"

fun is_run :: "call \<Rightarrow> bool" where
  "is_run (Run rl r key e) = True"
| "is_run c = False"

fun is_observed :: "call \<Rightarrow> bool" where
  "is_observed (Observed sys key to from cr) = True"
| "is_observed c = False"

definition kept :: "'c Automata \<Rightarrow> 'c Automata \<Rightarrow> bool" where
  "kept s s' \<longleftrightarrow>
     systems s' = systems s \<and> contexts s' = contexts s \<and> ctx_store s' = ctx_store s \<and>
     fresh s' = fresh s \<and> onUpdateContexts s' = onUpdateContexts s \<and> CargoClass s' = CargoClass s"

text \<open>
  \<open>finalizable s r\<close>: the system of context \<open>r\<close> is registered and defines \<^verbatim>\<open>@finalize\<close>.
  \<open>finalizeRuns s rs\<close>: the runs of \<^verbatim>\<open>@finalize\<close> for the contexts \<open>rs\<close>, in their order.
\<close>

definition finalizable :: "'c Automata \<Rightarrow> ref \<Rightarrow> bool" where
  "finalizable s r =
     (case systems s (system (ctx_store s r)) of
        None \<Rightarrow> False
      | Some sys \<Rightarrow> sys ''@finalize'' \<noteq> None)"

definition finalizeRuns :: "'c Automata \<Rightarrow> ref list \<Rightarrow> call list" where
  "finalizeRuns s rs =
     map (\<lambda>r. Run Finalizing r ''@finalize'' (finalizeEvent r)) (filter (finalizable s) rs)"

text \<open>
  What a handler run does, read off the handler itself. \<open>idle v\<close> is the effect of a state
  that is not defined: the cargo keeps its value \<open>v\<close> and nothing is pushed. \<open>effectOf st e v\<close>:
  the effect of the handler of \<open>st\<close>, if there is one, on event \<open>e\<close> and a cargo of value \<open>v\<close>.
  \<open>entriesOf rl r key st e eff\<close>: what such a run adds to the log, the run and then the pushes
  of the handler. \<open>finalizeState s r\<close> is the \<^verbatim>\<open>@finalize\<close> state of the system of context
  \<open>r\<close>, \<open>finalizeEffect s r\<close> what its handler does to the cargo that \<open>r\<close> has in \<open>s\<close>,
  \<open>finalizeOutcome s r\<close> how \<^verbatim>\<open>_finalizeContext\<close> settles for \<open>r\<close>, and \<open>finalizeEntries s r\<close>
  what it adds to the log. \<open>observerEffect st to from v\<close> and \<open>observerEntries\<close> are the same
  for the observer of state \<open>st\<close>. \<open>stateOf s r\<close> is the state that context \<open>r\<close> is in, and
  \<open>dispatchEffect s e r\<close> what its handler does with event \<open>e\<close> to the cargo that \<open>r\<close> has in
  \<open>s\<close>. \<open>own_cargo s rs\<close>: the contexts \<open>rs\<close> have pairwise different
  cargo objects, as the contexts that \<^verbatim>\<open>pushContext\<close> makes do. \<open>is_stack\<close> picks the writes of
  the stack out of the log.
\<close>

definition idle :: "'c \<Rightarrow> 'c effect" where
  "idle v = \<lparr>cargo_after = v, pushed = [], completion = Returns None\<rparr>"

definition effectOf :: "'c State option \<Rightarrow> Event \<Rightarrow> 'c \<Rightarrow> 'c effect" where
  "effectOf st e v = (case st of None \<Rightarrow> idle v | Some state \<Rightarrow> handler state e v)"

definition entriesOf ::
  "role \<Rightarrow> ref \<Rightarrow> string \<Rightarrow> 'c State option \<Rightarrow> Event \<Rightarrow> 'c effect \<Rightarrow> call list" where
  "entriesOf rl r key st e eff =
     (case st of
        None \<Rightarrow> []
      | Some state \<Rightarrow> Run rl r key e # map (\<lambda>x. Pushed (or_empty x)) (pushed eff))"

definition finalizeState :: "'c Automata \<Rightarrow> ref \<Rightarrow> 'c State option" where
  "finalizeState s r =
     (case systems s (system (ctx_store s r)) of
        None \<Rightarrow> None
      | Some sys \<Rightarrow> sys ''@finalize'')"

definition finalizeEffect :: "'c Automata \<Rightarrow> ref \<Rightarrow> 'c effect" where
  "finalizeEffect s r =
     effectOf (finalizeState s r) (finalizeEvent r) (cargo_store s (cargo (ctx_store s r)))"


definition finalizeEntries :: "'c Automata \<Rightarrow> ref \<Rightarrow> call list" where
  "finalizeEntries s r =
     entriesOf Finalizing r ''@finalize'' (finalizeState s r) (finalizeEvent r)
       (finalizeEffect s r)"





definition own_cargo :: "'c Automata \<Rightarrow> ref list \<Rightarrow> bool" where
  "own_cargo s rs \<longleftrightarrow> distinct (map (\<lambda>r. cargo (ctx_store s r)) rs)"


text \<open>
  \<open>unreserved\<close>: no context on the stack is in a state named \<^verbatim>\<open>@end\<close>, \<^verbatim>\<open>@current\<close> or
  \<^verbatim>\<open>#...\<close>. \<open>allocated\<close>: the contexts on the stack and their cargo lie below the
  allocation counter.
\<close>

definition unreserved :: "'c Automata \<Rightarrow> bool" where
  "unreserved s \<longleftrightarrow>
     (\<forall>r \<in> set (contexts s).
        currentState (ctx_store s r) \<noteq> ''@end'' \<and>
        currentState (ctx_store s r) \<noteq> ''@current'' \<and>
        take 1 (currentState (ctx_store s r)) \<noteq> ''#'')"

definition allocated :: "'c Automata \<Rightarrow> bool" where
  "allocated s \<longleftrightarrow> (\<forall>r \<in> set (contexts s). r < fresh s \<and> cargo (ctx_store s r) < fresh s)"

text \<open>
  \<open>shrunk s s'\<close>: as \<open>kept\<close>, but the stack of \<open>s'\<close> may have lost contexts at its end.
  \<open>separate s\<close>: the contexts on the stack are allocated and have each their own cargo.
\<close>

definition shrunk :: "'c Automata \<Rightarrow> 'c Automata \<Rightarrow> bool" where
  "shrunk s s' \<longleftrightarrow>
     systems s' = systems s \<and> contexts s' = take (length (contexts s')) (contexts s) \<and>
     ctx_store s' = ctx_store s \<and> fresh s' = fresh s \<and>
     onUpdateContexts s' = onUpdateContexts s \<and> CargoClass s' = CargoClass s"

definition separate :: "'c Automata \<Rightarrow> bool" where
  "separate s \<longleftrightarrow> allocated s \<and> own_cargo s (contexts s)"

text \<open>
  \<open>stack_property P\<close>: \<open>P\<close> is kept when contexts leave the stack, when a newly allocated
  context in state \<^verbatim>\<open>@start\<close> is pushed, when a context moves to a state whose name is
  not reserved, and when a system is registered. Every call keeps such a property.
\<close>

definition stack_property :: "('c Automata \<Rightarrow> bool) \<Rightarrow> bool" where
  "stack_property P \<longleftrightarrow>
     (\<forall>s s'. P s \<longrightarrow> shrunk s s' \<longrightarrow> P s') \<and>
     (\<forall>s n cs. P s \<longrightarrow>
        P (s\<lparr>cargo_store := cs,
             ctx_store := (ctx_store s)
               (fresh s := \<lparr>system = n, currentState = ''@start'', cargo = fresh s\<rparr>),
             fresh := Suc (fresh s),
             contexts := contexts s @ [fresh s]\<rparr>)) \<and>
     (\<forall>s r n. P s \<longrightarrow> n \<noteq> ''@end'' \<longrightarrow> n \<noteq> ''@current'' \<longrightarrow> take 1 n \<noteq> ''#'' \<longrightarrow>
        P (s\<lparr>ctx_store := (ctx_store s)(r := (ctx_store s r)\<lparr>currentState := n\<rparr>)\<rparr>)) \<and>
     (\<forall>s n sys. P s \<longrightarrow> P (registerSystem n sys s))"

text \<open>
  Readings of the log. \<open>pushedEvents\<close>, \<open>shiftedEvents\<close>: the events pushed and the events
  taken from the queue, in order. \<open>dispatches\<close>: the contexts that \<^verbatim>\<open>do\<close> offered an event
  to, with the event, in order. \<open>engine_entry\<close>: an entry that is neither the taking of an
  event, nor an offer of \<^verbatim>\<open>do\<close>, nor \<open>Moved\<close>. \<open>grows s s'\<close>: the log of \<open>s'\<close> is the log of
  \<open>s\<close> followed by such entries, and the queue of \<open>s'\<close> is the queue of \<open>s\<close> followed by
  the events pushed in between. \<open>traced s t s'\<close>: the same with \<open>t\<close> the new entries, none
  of them the taking of an event. \<open>eligible e s r\<close>: the filter of \<^verbatim>\<open>do\<close> lets context
  \<open>r\<close> have event \<open>e\<close>. \<open>offered e s i k\<close>: the offers of \<open>e\<close> to the eligible contexts at
  the indices from \<open>i\<close> up to but not \<open>k\<close>. \<open>offerEntries e s r\<close>: what the offer of \<open>e\<close>
  to context \<open>r\<close> adds to the log when no transition follows, nothing if \<open>r\<close> is not
  eligible. \<open>moved_last t\<close>: \<open>Moved\<close> occurs in \<open>t\<close> at most once,
  and then last. \<open>fifo s\<close>: the events taken so far, followed by the queue, are the events
  pushed so far.
\<close>

fun pushedOf :: "call \<Rightarrow> Event list" where
  "pushedOf (Pushed e) = [e]"
| "pushedOf c = []"

fun shiftedOf :: "call \<Rightarrow> Event list" where
  "shiftedOf (Shifted e) = [e]"
| "shiftedOf c = []"

fun dispatchOf :: "call \<Rightarrow> (ref \<times> Event) list" where
  "dispatchOf (Run Dispatched r key e) = [(r, e)]"
| "dispatchOf c = []"

definition pushedEvents :: "call list \<Rightarrow> Event list" where
  "pushedEvents t = concat (map pushedOf t)"

definition shiftedEvents :: "call list \<Rightarrow> Event list" where
  "shiftedEvents t = concat (map shiftedOf t)"

definition dispatches :: "call list \<Rightarrow> (ref \<times> Event) list" where
  "dispatches t = concat (map dispatchOf t)"

fun engine_entry :: "call \<Rightarrow> bool" where
  "engine_entry (Shifted e) = False"
| "engine_entry Moved = False"
| "engine_entry (Run Dispatched r key e) = False"
| "engine_entry c = True"

definition grows :: "'c Automata \<Rightarrow> 'c Automata \<Rightarrow> bool" where
  "grows s s' \<longleftrightarrow>
     (\<exists>t. trace s' = trace s @ t \<and> list_all engine_entry t \<and>
          events s' = events s @ pushedEvents t)"

definition eligible :: "Event \<Rightarrow> 'c Automata \<Rightarrow> ref \<Rightarrow> bool" where
  "eligible event s r \<longleftrightarrow> targetsOther event (system (ctx_store s r)) = Returned False"

definition traced :: "'c Automata \<Rightarrow> call list \<Rightarrow> 'c Automata \<Rightarrow> bool" where
  "traced s t s' \<longleftrightarrow>
     trace s' = trace s @ t \<and> events s' = events s @ pushedEvents t \<and> shiftedEvents t = []"

definition offered :: "Event \<Rightarrow> 'c Automata \<Rightarrow> nat \<Rightarrow> nat \<Rightarrow> (ref \<times> Event) list" where
  "offered e s i k =
     map (\<lambda>r. (r, e)) (filter (eligible e s) (take (k - i) (drop i (contexts s))))"


definition moved_last :: "call list \<Rightarrow> bool" where
  "moved_last t \<longleftrightarrow> Moved \<notin> set t \<or> (\<exists>t0. t = t0 @ [Moved] \<and> Moved \<notin> set t0)"

definition fifo :: "'c Automata \<Rightarrow> bool" where
  "fifo s \<longleftrightarrow> shiftedEvents (trace s) @ events s = pushedEvents (trace s)"

subsection \<open>Two example systems\<close>

text \<open>
  A small registry in the style of the README, with a natural number as cargo. A \<open>counting\<close>
  handler counts its calls in the cargo and asks for a fixed token.
\<close>

definition counting :: "string option \<Rightarrow> Event \<Rightarrow> nat \<Rightarrow> nat effect" where
  "counting t e c = \<lparr>cargo_after = Suc c, pushed = [], completion = Returns t\<rparr>"

definition leaved :: Event where
  "leaved = \<lparr>type = Some ''automata'', name = Some ''leaved'', data = Some DataOther\<rparr>"

definition main_system :: "nat System" where
  "main_system =
     [''@start'' \<mapsto>
        \<lparr>handler = counting (Some ''state1''),
         onTransitionHandler =
           Some (\<lambda>to from c. \<lparr>cargo_after = c + 10, pushed = [], completion = Returns None\<rparr>)\<rparr>,
      ''state1'' \<mapsto> \<lparr>handler = counting (Some ''#sub''), onTransitionHandler = None\<rparr>,
      ''state2'' \<mapsto> \<lparr>handler = counting (Some ''@end''), onTransitionHandler = None\<rparr>]"

definition sub_system :: "nat System" where
  "sub_system =
     [''@start'' \<mapsto> \<lparr>handler = counting (Some ''sub-state''), onTransitionHandler = None\<rparr>,
      ''sub-state'' \<mapsto> \<lparr>handler = counting (Some ''@end''), onTransitionHandler = None\<rparr>,
      ''@end'' \<mapsto>
        \<lparr>handler = (\<lambda>e c. \<lparr>cargo_after = c, pushed = [Some leaved], completion = Returns None\<rparr>),
         onTransitionHandler = None\<rparr>,
      ''@finalize'' \<mapsto> \<lparr>handler = counting None, onTransitionHandler = None\<rparr>]"

text \<open>The engine after its constructor and two \<^verbatim>\<open>registerSystem\<close> calls.\<close>

definition demo :: "nat Automata" where
  "demo =
     \<lparr>systems = [''main'' \<mapsto> main_system, ''sub'' \<mapsto> sub_system],
      contexts = [],
      events = [],
      onUpdateContexts = True,
      CargoClass = 0,
      ctx_store = (\<lambda>r. \<lparr>system = [], currentState = [], cargo = 0\<rparr>),
      cargo_store = (\<lambda>r. 0),
      fresh = 0,
      trace = []\<rparr>"

text \<open>The stack \<open>[main(state1), sub(sub-state)]\<close> of the README's run.\<close>

definition demo2 :: "nat Automata" where
  "demo2 =
     demo\<lparr>contexts := [0, 1],
          ctx_store := (ctx_store demo)
             (0 := \<lparr>system = ''main'', currentState = ''state1'', cargo = 0\<rparr>,
              1 := \<lparr>system = ''sub'', currentState = ''sub-state'', cargo = 1\<rparr>),
          fresh := 2\<rparr>"

text \<open>The same stack when the \<^verbatim>\<open>@finalize\<close> handler of \<open>sub\<close> throws.\<close>

definition demo_failing :: "nat Automata" where
  "demo_failing =
     demo2\<lparr>systems := (systems demo2)
       (''sub'' \<mapsto> sub_system
          (''@finalize'' \<mapsto>
             \<lparr>handler = (\<lambda>e c. \<lparr>cargo_after = c, pushed = [], completion = Throws\<rparr>),
              onTransitionHandler = None\<rparr>))\<rparr>"


text \<open>The same stack with one empty event in the queue.\<close>

definition demo_queued :: "nat Automata" where
  "demo_queued = demo2\<lparr>events := [empty_event]\<rparr>"


text \<open>The same stack with a \<^verbatim>\<open>transition\<close> event that has no \<^verbatim>\<open>data\<close> in the queue.\<close>

definition demo3 :: "nat Automata" where
  "demo3 =
     demo2\<lparr>events :=
       [\<lparr>type = Some ''automata'', name = Some ''transition'', data = None\<rparr>]\<rparr>"

lemmas demo_defs =
  demo_def demo2_def demo3_def demo_queued_def demo_failing_def main_system_def sub_system_def
  counting_def leaved_def

lemmas engine_defs =
  transitionTo_def transitionEnd_def transitionCurrent_def transitionChild_def enterChild_def
  transitionState_def removeDescendants_def finalizeContext_def pushContext_def run_def
  callOnTransition_def absorb_def pushEvent_def notifyUpdateContexts_def promiseAll_def
  slice_def clamp_index_def at_def or_empty_def empty_event_def nextEvent_def do_def
  targetsOther_def truthy_def enteredEvent_def finalizeEvent_def endEvent_def doBody_def

section \<open>Auxiliary facts\<close>

subsection \<open>Arrays\<close>

lemma findIndex_first:
  "x \<notin> set outer \<Longrightarrow> findIndex (outer @ x # rest) x = int (length outer)"
  by (induction outer) (auto simp: Let_def)



lemma at_nth: "i < length xs \<Longrightarrow> at xs (int i) = Some (xs ! i)"
  by (simp add: at_def)

subsection \<open>What the basic operations change\<close>

lemma pushEvent_fields [simp]:
  "systems (pushEvent e s) = systems s"
  "ctx_store (pushEvent e s) = ctx_store s"
  "cargo_store (pushEvent e s) = cargo_store s"
  "fresh (pushEvent e s) = fresh s"
  "onUpdateContexts (pushEvent e s) = onUpdateContexts s"
  "CargoClass (pushEvent e s) = CargoClass s"
  "events (pushEvent e s) = events s @ [or_empty e]"
  "trace (pushEvent e s) = trace s @ [Pushed (or_empty e)]"
  by (simp_all add: pushEvent_def)

lemma fold_pushEvent_fields [simp]:
  "systems (fold pushEvent es s) = systems s"
  "ctx_store (fold pushEvent es s) = ctx_store s"
  "cargo_store (fold pushEvent es s) = cargo_store s"
  "fresh (fold pushEvent es s) = fresh s"
  "onUpdateContexts (fold pushEvent es s) = onUpdateContexts s"
  "CargoClass (fold pushEvent es s) = CargoClass s"
  "events (fold pushEvent es s) = events s @ map or_empty es"
  "trace (fold pushEvent es s) = trace s @ map (\<lambda>e. Pushed (or_empty e)) es"
  by (induction es arbitrary: s) simp_all

lemma absorb_fields [simp]:
  "systems (absorb eff cr s) = systems s"
  "ctx_store (absorb eff cr s) = ctx_store s"
  "cargo_store (absorb eff cr s) = (cargo_store s)(cr := cargo_after eff)"
  "fresh (absorb eff cr s) = fresh s"
  "onUpdateContexts (absorb eff cr s) = onUpdateContexts s"
  "CargoClass (absorb eff cr s) = CargoClass s"
  "events (absorb eff cr s) = events s @ map or_empty (pushed eff)"
  "trace (absorb eff cr s) = trace s @ map (\<lambda>e. Pushed (or_empty e)) (pushed eff)"
  by (simp_all add: absorb_def)

lemma notify_fields [simp]:
  "systems (notifyUpdateContexts s) = systems s"
  "contexts (notifyUpdateContexts s) = contexts s"
  "ctx_store (notifyUpdateContexts s) = ctx_store s"
  "cargo_store (notifyUpdateContexts s) = cargo_store s"
  "fresh (notifyUpdateContexts s) = fresh s"
  "onUpdateContexts (notifyUpdateContexts s) = onUpdateContexts s"
  "CargoClass (notifyUpdateContexts s) = CargoClass s"
  "events (notifyUpdateContexts s) = events s"
  "trace (notifyUpdateContexts s) = trace s @ (if onUpdateContexts s then [UpdateContexts] else [])"
  by (simp_all add: notifyUpdateContexts_def)

lemma filter_pushed [simp]:
  "filter is_run (map (\<lambda>e. Pushed (f e)) es) = []"
  "filter is_observed (map (\<lambda>e. Pushed (f e)) es) = []"
  by (induction es) simp_all

lemma kept_refl [simp]: "kept s s"
  by (simp add: kept_def)

lemma kept_trans: "kept s s1 \<Longrightarrow> kept s1 s2 \<Longrightarrow> kept s s2"
  by (simp add: kept_def)

lemma kept_run: "run rl r key st ev cr s = (out, s') \<Longrightarrow> kept s s'"
  by (auto simp: run_def Let_def kept_def split: completion.splits)

lemma kept_callOnTransition:
  "callOnTransition st sys key to from cr s = (out, s') \<Longrightarrow> kept s s'"
  by (auto simp: callOnTransition_def Let_def kept_def split: completion.splits option.splits)

lemma kept_finalizeContext: "finalizeContext r s = (out, s') \<Longrightarrow> kept s s'"
  by (auto simp: finalizeContext_def Let_def split: option.splits prod.splits outcome.splits
      dest: kept_run)

lemma kept_finalizeEach: "finalizeEach rs s = (outs, s') \<Longrightarrow> kept s s'"
proof (induction rs arbitrary: s outs s')
  case Nil
  then show ?case by simp
next
  case (Cons r rs)
  obtain out s1 where f: "finalizeContext r s = (out, s1)" by (cases "finalizeContext r s")
  obtain outs1 s2 where g: "finalizeEach rs s1 = (outs1, s2)" by (cases "finalizeEach rs s1")
  have "kept s s1" using kept_finalizeContext f by blast
  moreover have "kept s1 s2" using Cons.IH g by blast
  moreover have "s' = s2" using Cons.prems f g by simp
  ultimately show ?case using kept_trans by blast
qed


lemma handler_returns:
  "handlers_return s \<Longrightarrow> systems s n = Some sys \<Longrightarrow> sys key = Some st \<Longrightarrow>
   \<exists>t. completion (handler st e c) = Returns t"
  unfolding handlers_return_def by (metis completion.exhaust)


lemma handlers_return_demo: "handlers_return demo2"
  by (auto simp: handlers_return_def demo_defs split: if_splits)

lemma run_result:
  assumes "handlers_return s" "systems s n = Some sys" "sys key = Some st"
  shows "\<exists>t. run rl r k st e cr s =
           (Returned t,
            absorb (handler st e (cargo_store s cr)) cr (s\<lparr>trace := trace s @ [Run rl r k e]\<rparr>))"
  using handler_returns [OF assms, of e "cargo_store s cr"]
  by (auto simp: run_def Let_def)

lemma finalizeContext_result:
  assumes "handlers_return s" "systems s (system (ctx_store s r)) = Some sys"
  shows "finalizeContext r s =
           (Returned (),
            case sys ''@finalize'' of
              None \<Rightarrow> s
            | Some st \<Rightarrow>
                absorb (handler st (finalizeEvent r) (cargo_store s (cargo (ctx_store s r))))
                  (cargo (ctx_store s r))
                  (s\<lparr>trace := trace s @ [Run Finalizing r ''@finalize'' (finalizeEvent r)]\<rparr>))"
proof (cases "sys ''@finalize''")
  case None
  then show ?thesis using assms(2) by (simp add: finalizeContext_def Let_def)
next
  case (Some st)
  from run_result [OF assms(1,2) Some]
  obtain t where "run Finalizing r ''@finalize'' st (finalizeEvent r) (cargo (ctx_store s r)) s =
           (Returned t,
            absorb (handler st (finalizeEvent r) (cargo_store s (cargo (ctx_store s r)))) (cargo (ctx_store s r))
              (s\<lparr>trace := trace s @ [Run Finalizing r ''@finalize'' (finalizeEvent r)]\<rparr>))"
    by blast
  then show ?thesis using assms(2) Some by (simp add: finalizeContext_def Let_def)
qed











subsection \<open>Properties of the stack that every call keeps\<close>

lemma kept_shrunk: "kept s s' \<Longrightarrow> shrunk s s'"
  by (simp add: kept_def shrunk_def)

lemma set_slice: "set (slice xs a b) \<subseteq> set xs"
  by (auto simp: slice_def Let_def dest!: in_set_takeD in_set_dropD)

lemma slice_prefix: "slice xs 0 b = take (length (slice xs 0 b)) xs"
  by (simp add: slice_def clamp_index_def Let_def min_def)

lemma shrunk_removeDescendants: "removeDescendants r w s = (out, s') \<Longrightarrow> shrunk s s'"
proof -
  assume a: "removeDescendants r w s = (out, s')"
  let ?k = "findIndex (contexts s) r + (if w then 0 else 1)"
  obtain outs s1 where g: "finalizeEach (slice (contexts s) ?k None) s = (outs, s1)"
    by (cases "finalizeEach (slice (contexts s) ?k None) s")
  have k: "kept s s1" using kept_finalizeEach [OF g] .
  have "s' = s1 \<or>
        s' = s1\<lparr>contexts := slice (contexts s) 0 (Some ?k),
                trace := trace s1 @ [Stack (slice (contexts s) 0 (Some ?k))]\<rparr>"
    using a g by (auto simp: removeDescendants_def Let_def split: outcome.splits)
  then show ?thesis
    using k slice_prefix [of "contexts s" "Some ?k"] by (auto simp: kept_def shrunk_def)
qed

lemma shrunk_set: "shrunk s s' \<Longrightarrow> set (contexts s') \<subseteq> set (contexts s)"
  unfolding shrunk_def by (metis set_take_subset)

lemma stack_property_unreserved: "stack_property unreserved"
proof -
  have "unreserved s'" if "unreserved s" "shrunk s s'" for s s' :: "'c Automata"
    using that shrunk_set [OF that(2)] by (auto simp: unreserved_def shrunk_def)
  then show ?thesis
    unfolding stack_property_def
    by (auto simp: unreserved_def registerSystem_def)
qed

lemma stack_property_allocated: "stack_property allocated"
proof -
  have "allocated s'" if "allocated s" "shrunk s s'" for s s' :: "'c Automata"
    using that shrunk_set [OF that(2)] by (auto simp: allocated_def shrunk_def)
  then show ?thesis
    unfolding stack_property_def
    by (auto simp: allocated_def registerSystem_def less_Suc_eq)
qed

lemma stack_property_separate: "stack_property separate"
proof -
  have 1: "separate s'" if "separate s" "shrunk s s'" for s s' :: "'c Automata"
  proof -
    have "allocated s'"
      using that shrunk_set [OF that(2)] by (auto simp: separate_def allocated_def shrunk_def)
    moreover have "distinct (map (\<lambda>r. cargo (ctx_store s r)) (take (length (contexts s')) (contexts s)))"
      using that(1) by (simp add: separate_def own_cargo_def take_map [symmetric] distinct_take)
    then have "own_cargo s' (contexts s')"
      using that(2) by (simp add: own_cargo_def shrunk_def)
    ultimately show ?thesis by (simp add: separate_def)
  qed
  have 2: "separate (s\<lparr>cargo_store := cs,
             ctx_store := (ctx_store s)
               (fresh s := \<lparr>system = n, currentState = ''@start'', cargo = fresh s\<rparr>),
             fresh := Suc (fresh s),
             contexts := contexts s @ [fresh s]\<rparr>)" if "separate s" for s :: "'c Automata" and n cs
  proof -
    define cs' where "cs' = (ctx_store s)
               (fresh s := \<lparr>system = n, currentState = ''@start'', cargo = fresh s\<rparr>)"
    have a: "\<forall>r \<in> set (contexts s). r < fresh s \<and> cargo (ctx_store s r) < fresh s"
      and d: "distinct (map (\<lambda>r. cargo (ctx_store s r)) (contexts s))"
      using that by (simp_all add: separate_def allocated_def own_cargo_def)
    have v: "cs' r = ctx_store s r" if "r \<in> set (contexts s)" for r
      using a that by (auto simp: cs'_def)
    have w: "cargo (cs' (fresh s)) = fresh s" by (simp add: cs'_def)
    have m: "map (\<lambda>r. cargo (cs' r)) (contexts s) = map (\<lambda>r. cargo (ctx_store s r)) (contexts s)"
      using v by (simp cong: map_cong)
    have nin: "fresh s \<notin> set (map (\<lambda>r. cargo (ctx_store s r)) (contexts s))"
      using a by auto
    have d': "distinct (map (\<lambda>r. cargo (cs' r)) (contexts s))"
      unfolding m by (rule d)
    have nin': "fresh s \<notin> set (map (\<lambda>r. cargo (cs' r)) (contexts s))"
      unfolding m by (rule nin)
    have "distinct (map (\<lambda>r. cargo (cs' r)) (contexts s @ [fresh s]))"
      using d' nin' w by simp
    moreover have "\<forall>r \<in> set (contexts s @ [fresh s]). r < Suc (fresh s) \<and> cargo (cs' r) < Suc (fresh s)"
      using a v w by (auto simp: less_Suc_eq)
    ultimately show ?thesis
      unfolding separate_def allocated_def own_cargo_def
      by (simp add: cs'_def [symmetric] del: fun_upd_apply)
  qed
  have 3: "separate (s\<lparr>ctx_store := (ctx_store s)(r := (ctx_store s r)\<lparr>currentState := n\<rparr>)\<rparr>)"
    if "separate s" for s :: "'c Automata" and r n
  proof -
    have "(\<lambda>x. cargo (((ctx_store s)(r := (ctx_store s r)\<lparr>currentState := n\<rparr>)) x)) =
          (\<lambda>x. cargo (ctx_store s x))"
      by (auto simp: fun_eq_iff)
    then show ?thesis using that by (simp add: separate_def allocated_def own_cargo_def)
  qed
  have 4: "separate (registerSystem n sys s)" if "separate s" for s :: "'c Automata" and n sys
    using that by (simp add: separate_def allocated_def own_cargo_def registerSystem_def)
  show ?thesis
    unfolding stack_property_def using 1 2 3 4 by blast
qed

lemma stack_property_shrunk: "stack_property P \<Longrightarrow> P s \<Longrightarrow> shrunk s s' \<Longrightarrow> P s'"
  unfolding stack_property_def by simp

lemma stack_property_push:
  "stack_property P \<Longrightarrow> P s \<Longrightarrow>
   P (s\<lparr>cargo_store := cs,
        ctx_store := (ctx_store s)
          (fresh s := \<lparr>system = n, currentState = ''@start'', cargo = fresh s\<rparr>),
        fresh := Suc (fresh s),
        contexts := contexts s @ [fresh s]\<rparr>)"
  unfolding stack_property_def by simp

lemma stack_property_move:
  "stack_property P \<Longrightarrow> P s \<Longrightarrow> n \<noteq> ''@end'' \<Longrightarrow> n \<noteq> ''@current'' \<Longrightarrow>
   take 1 n \<noteq> ''#'' \<Longrightarrow>
   P (s\<lparr>ctx_store := (ctx_store s)(r := (ctx_store s r)\<lparr>currentState := n\<rparr>)\<rparr>)"
  unfolding stack_property_def by simp

lemma stack_property_register:
  "stack_property P \<Longrightarrow> P s \<Longrightarrow> P (registerSystem n sys s)"
  unfolding stack_property_def by simp

lemma stack_property_kept: "stack_property P \<Longrightarrow> P s \<Longrightarrow> kept s s' \<Longrightarrow> P s'"
  using stack_property_shrunk kept_shrunk by blast

lemma kept_pushEvent: "kept s (pushEvent e s)"
  by (simp add: kept_def)

lemma kept_notify: "kept s (notifyUpdateContexts s)"
  by (simp add: kept_def)

lemma preserved_pushContext:
  assumes "stack_property P" "P s" "pushContext n s = (out, s')"
  shows "P s'"
proof -
  define s0 where "s0 =
    s\<lparr>cargo_store := (cargo_store s)(fresh s := CargoClass s),
      ctx_store := (ctx_store s)
        (fresh s := \<lparr>system = n, currentState = ''@start'', cargo = fresh s\<rparr>),
      fresh := Suc (fresh s),
      contexts := contexts s @ [fresh s]\<rparr>"
  define s1 where "s1 =
    s\<lparr>cargo_store := (cargo_store s)(fresh s := CargoClass s),
      ctx_store := (ctx_store s)
        (fresh s := \<lparr>system = n, currentState = ''@start'', cargo = fresh s\<rparr>),
      fresh := Suc (fresh s),
      contexts := contexts s @ [fresh s],
      trace := trace s @ [Stack (contexts s @ [fresh s])]\<rparr>"
  have p0: "P s0"
    unfolding s0_def using assms(1,2) by (rule stack_property_push)
  have "kept s0 s1" by (simp add: kept_def s0_def s1_def)
  then have p1: "P s1" using stack_property_kept [OF assms(1) p0] by blast
  have sy: "systems s1 = systems s" by (simp add: s1_def)
  show ?thesis
  proof (cases "\<exists>sys st. systems s n = Some sys \<and> sys ''@start'' = Some st")
    case False
    then have "s' = s1"
      using assms(3) by (auto simp: pushContext_def Let_def s1_def [symmetric] split: option.splits)
    then show ?thesis using p1 by simp
  next
    case True
    then obtain sys st where l: "systems s n = Some sys" "sys ''@start'' = Some st" by blast
    obtain o2 s2 where c: "callOnTransition st n ''@start'' n ''@start'' (fresh s) s1 = (o2, s2)"
      by (cases "callOnTransition st n ''@start'' n ''@start'' (fresh s) s1")
    have p2: "P s2" using stack_property_kept [OF assms(1) p1 kept_callOnTransition [OF c]] .
    have p3: "P (pushEvent (Some (enteredEvent n)) (notifyUpdateContexts s2))"
      using stack_property_kept [OF assms(1) p2 kept_trans [OF kept_notify kept_pushEvent]] .
    have "s' = s2 \<or> s' = pushEvent (Some (enteredEvent n)) (notifyUpdateContexts s2)"
      using assms(3) l c by (auto simp: pushContext_def Let_def s1_def [symmetric] split: outcome.splits)
    then show ?thesis using p2 p3 by blast
  qed
qed

lemma preserved_transitionEnd:
  assumes "stack_property P" "P s" "transitionEnd r s = (out, s')"
  shows "P s'"
proof (cases "systems s (system (ctx_store s r))")
  case None
  then show ?thesis using assms by (simp add: transitionEnd_def Let_def)
next
  case (Some sys)
  obtain o1 s1 where e: "(case sys ''@end'' of
      None \<Rightarrow> (Returned None, s)
    | Some endState \<Rightarrow>
        run Ending r ''@end'' endState (endEvent r) (cargo (ctx_store s r)) s) = (o1, s1)"
    by (cases "case sys ''@end'' of
      None \<Rightarrow> (Returned None, s)
    | Some endState \<Rightarrow>
        run Ending r ''@end'' endState (endEvent r) (cargo (ctx_store s r)) s")
  have k1: "kept s s1"
    using e kept_run by (cases "sys ''@end''") auto
  have p1: "P s1" using stack_property_kept [OF assms(1,2) k1] .
  define s2 where "s2 = s1\<lparr>contexts := butlast (contexts s1),
                            trace := trace s1 @ [Stack (butlast (contexts s1))]\<rparr>"
  have "shrunk s1 s2"
    by (simp add: shrunk_def s2_def butlast_conv_take)
  then have p2: "P s2" using stack_property_shrunk [OF assms(1) p1] by blast
  obtain o3 s3 where f: "finalizeContext (last (contexts s1)) s2 = (o3, s3)"
    by (cases "finalizeContext (last (contexts s1)) s2")
  have p3: "P s3" using stack_property_kept [OF assms(1) p2 kept_finalizeContext [OF f]] .
  have p4: "P (notifyUpdateContexts s3)"
    using stack_property_kept [OF assms(1) p3 kept_notify] .
  have "s' = s1 \<or> s' = s3 \<or> s' = notifyUpdateContexts s3"
    using assms(3) Some e f
    by (auto simp: transitionEnd_def Let_def s2_def [symmetric] split: outcome.splits if_splits)
  then show ?thesis using p1 p3 p4 by blast
qed

lemma preserved_removeDescendants:
  "stack_property P \<Longrightarrow> P s \<Longrightarrow> removeDescendants r w s = (out, s') \<Longrightarrow> P s'"
  using stack_property_shrunk shrunk_removeDescendants by blast

lemma preserved_transitionCurrent:
  assumes "stack_property P" "P s" "transitionCurrent r s = (out, s')"
  shows "P s'"
proof -
  obtain o1 s1 where rd: "removeDescendants r False s = (o1, s1)"
    by (cases "removeDescendants r False s")
  have p1: "P s1" using preserved_removeDescendants [OF assms(1,2) rd] .
  let ?c = "ctx_store s1 r"
  show ?thesis
  proof (cases "\<exists>sys st. systems s1 (system ?c) = Some sys \<and> sys (currentState ?c) = Some st \<and>
      o1 = Returned ()")
    case False
    then have "s' = s1"
      using assms(3) rd
      by (auto simp: transitionCurrent_def Let_def split: option.splits outcome.splits)
    then show ?thesis using p1 by simp
  next
    case True
    then obtain sys st where l: "systems s1 (system ?c) = Some sys"
      "sys (currentState ?c) = Some st" "o1 = Returned ()" by blast
    obtain o2 s2 where c: "callOnTransition st (system ?c) (currentState ?c) (currentState ?c)
        (currentState ?c) (cargo ?c) s1 = (o2, s2)"
      by (cases "callOnTransition st (system ?c) (currentState ?c) (currentState ?c)
        (currentState ?c) (cargo ?c) s1")
    have p2: "P s2" using stack_property_kept [OF assms(1) p1 kept_callOnTransition [OF c]] .
    have p3: "P (notifyUpdateContexts (notifyUpdateContexts s2))"
      using stack_property_kept [OF assms(1) p2 kept_trans [OF kept_notify kept_notify]] .
    have "s' = s2 \<or> s' = notifyUpdateContexts (notifyUpdateContexts s2)"
      using assms(3) rd l c by (auto simp: transitionCurrent_def Let_def split: outcome.splits)
    then show ?thesis using p2 p3 by blast
  qed
qed

lemma preserved_enterChild:
  assumes "stack_property P" "P s" "enterChild n r s = (out, s')"
  shows "P s'"
proof -
  obtain o1 s1 where rd: "removeDescendants r False s = (o1, s1)"
    by (cases "removeDescendants r False s")
  have p1: "P s1" using preserved_removeDescendants [OF assms(1,2) rd] .
  obtain o2 s2 where pc: "pushContext n s1 = (o2, s2)" by (cases "pushContext n s1")
  have p2: "P s2" using preserved_pushContext [OF assms(1) p1 pc] .
  have p3: "P (notifyUpdateContexts s2)" using stack_property_kept [OF assms(1) p2 kept_notify] .
  have "s' = s1 \<or> s' = s2 \<or> s' = notifyUpdateContexts s2"
    using assms(3) rd pc by (auto simp: enterChild_def split: outcome.splits)
  then show ?thesis using p1 p2 p3 by blast
qed

lemma preserved_transitionState:
  assumes "stack_property P" "P s" "transitionState n r s = (out, s')"
    and "n \<noteq> ''@end''" "n \<noteq> ''@current''" "take 1 n \<noteq> ''#''"
  shows "P s'"
proof -
  obtain o1 s1 where rd: "removeDescendants r False s = (o1, s1)"
    by (cases "removeDescendants r False s")
  have p1: "P s1" using preserved_removeDescendants [OF assms(1,2) rd] .
  show ?thesis
  proof (cases "\<exists>sys st. systems s1 (system (ctx_store s1 r)) = Some sys \<and> sys n = Some st \<and>
      o1 = Returned ()")
    case False
    then have "s' = s1"
      using assms(3) rd by (auto simp: transitionState_def Let_def split: option.splits outcome.splits)
    then show ?thesis using p1 by simp
  next
    case True
    then obtain sys st where l: "systems s1 (system (ctx_store s1 r)) = Some sys" "sys n = Some st"
      "o1 = Returned ()" by blast
    obtain o2 s2 where c: "callOnTransition st (system (ctx_store s1 r)) n n
        (currentState (ctx_store s1 r)) (cargo (ctx_store s1 r)) s1 = (o2, s2)"
      by (cases "callOnTransition st (system (ctx_store s1 r)) n n
        (currentState (ctx_store s1 r)) (cargo (ctx_store s1 r)) s1")
    have p2: "P s2" using stack_property_kept [OF assms(1) p1 kept_callOnTransition [OF c]] .
    define s3 where "s3 =
      s2\<lparr>ctx_store := (ctx_store s2)(r := (ctx_store s2 r)\<lparr>currentState := n\<rparr>)\<rparr>"
    have p3: "P s3"
      unfolding s3_def using assms(1) p2 assms(4,5,6) by (rule stack_property_move)
    have p4: "P (notifyUpdateContexts s3)"
      using stack_property_kept [OF assms(1) p3 kept_notify] .
    have "s' = s2 \<or> s' = notifyUpdateContexts s3"
      using assms(3) rd l c by (auto simp: transitionState_def Let_def s3_def split: outcome.splits)
    then show ?thesis using p2 p4 by blast
  qed
qed

lemma preserved_transitionTo:
  assumes "stack_property P" "P s" "transitionTo t r s = (out, s')"
  shows "P s'"
  using assms preserved_transitionEnd [OF assms(1,2)] preserved_transitionCurrent [OF assms(1,2)]
    preserved_enterChild [OF assms(1,2)] preserved_transitionState [OF assms(1,2)]
  by (auto simp: transitionTo_def transitionChild_def Let_def split: if_splits)

lemma preserved_run:
  "stack_property P \<Longrightarrow> P s \<Longrightarrow> run rl r key st e cr s = (out, s') \<Longrightarrow> P s'"
  using stack_property_kept kept_run by blast

lemma preserved_moved: "stack_property P \<Longrightarrow> P s \<Longrightarrow> P (s\<lparr>trace := trace s @ [Moved]\<rparr>)"
  by (rule stack_property_kept [of P s]) (simp_all add: kept_def)

lemma preserved_doBody:
  assumes "stack_property P" "P s" "doBody e r s = (out, s')"
  shows "P s'"
proof -
  let ?c = "ctx_store s r"
  show ?thesis
  proof (cases "\<exists>sys st. systems s (system ?c) = Some sys \<and> sys (currentState ?c) = Some st \<and>
      targetsOther e (system ?c) = Returned False")
    case False
    then have "s' = s"
      using assms(3)
      by (auto simp: doBody_def Let_def split: option.splits outcome.splits bool.splits)
    then show ?thesis using assms(2) by simp
  next
    case True
    then obtain sys st where l: "systems s (system ?c) = Some sys"
      "sys (currentState ?c) = Some st" "targetsOther e (system ?c) = Returned False" by blast
    obtain o1 s1 where rn: "run Dispatched r (currentState ?c) st e (cargo ?c) s = (o1, s1)"
      by (cases "run Dispatched r (currentState ?c) st e (cargo ?c) s")
    have p1: "P s1" using preserved_run [OF assms(1,2) rn] .
    show ?thesis
    proof (cases "\<exists>tok. o1 = Returned tok \<and> truthy tok")
      case False
      then have "s' = s1"
        using assms(3) l rn by (auto simp: doBody_def Let_def split: outcome.splits)
      then show ?thesis using p1 by simp
    next
      case True
      then obtain tok where tk: "o1 = Returned tok" "truthy tok" by blast
      obtain o2 s2 where tr: "transitionTo (the tok) r s1 = (o2, s2)"
        by (cases "transitionTo (the tok) r s1")
      have p2: "P s2" using preserved_transitionTo [OF assms(1) p1 tr] .
      have "s' = s2 \<or> s' = s2\<lparr>trace := trace s2 @ [Moved]\<rparr>"
        using assms(3) l rn tk tr
        by (auto simp: doBody_def Let_def split: outcome.splits bool.splits)
      then show ?thesis using p2 preserved_moved [OF assms(1) p2] by auto
    qed
  qed
qed

lemma preserved_doLoop:
  "stack_property P \<Longrightarrow> P s \<Longrightarrow> doLoop e i s = (out, s') \<Longrightarrow> P s'"
proof (induction e i s arbitrary: out s' rule: doLoop.induct)
  case (1 event i s)
  show ?case
  proof (cases "i < length (contexts s)")
    case False
    then show ?thesis using "1.prems" by (simp add: doLoop.simps)
  next
    case True
    obtain o1 s1 where b: "doBody event (contexts s ! i) s = (o1, s1)"
      by (cases "doBody event (contexts s ! i) s")
    have p1: "P s1" using preserved_doBody [OF "1.prems"(1,2) b] .
    show ?thesis
    proof (cases "o1 = Returned Continue")
      case False
      then have "s' = s1"
        using "1.prems"(3) True b
        by (subst (asm) doLoop.simps) (auto split: outcome.splits flow.splits)
      then show ?thesis using p1 by simp
    next
      case cont: True
      then have "doLoop event (Suc i) s1 = (out, s')"
        using "1.prems"(3) True b by (subst (asm) doLoop.simps) simp
      then show ?thesis
        using "1.IH" [OF True b [symmetric] cont refl "1.prems"(1) p1] by simp
    qed
  qed
qed

lemma preserved_do:
  assumes "stack_property P" "P s" "do s = Some (out, s')"
  shows "P s'"
proof -
  obtain e es where ev: "events s = e # es"
    using assms(3) by (cases "events s") (simp_all add: do_def nextEvent_def)
  define s0 where "s0 = s\<lparr>events := es, trace := trace s @ [Shifted e]\<rparr>"
  have p0: "P s0"
    by (rule stack_property_kept [OF assms(1,2)]) (simp add: kept_def s0_def)
  obtain o1 s1 where l: "doLoop e 0 s0 = (o1, s1)" by (cases "doLoop e 0 s0")
  have "s' = s1"
    using assms(3) ev l by (auto simp: do_def nextEvent_def s0_def split: outcome.splits)
  then show ?thesis using preserved_doLoop [OF assms(1) p0 l] by simp
qed

lemma preserved_perform:
  assumes "stack_property P" "P s"
  shows "P (perform req s)"
proof (cases req)
  case (RegisterSystem n sys)
  then show ?thesis using stack_property_register [OF assms] by simp
next
  case (PushContext n)
  then show ?thesis
    using preserved_pushContext [OF assms, of n "fst (pushContext n s)" "snd (pushContext n s)"]
    by simp
next
  case (PushEvent e)
  then show ?thesis using stack_property_kept [OF assms kept_pushEvent] by simp
next
  case Do
  then show ?thesis using preserved_do [OF assms] assms(2) by (auto split: option.splits)
qed

lemma preserved_fold_perform:
  "stack_property P \<Longrightarrow> P s \<Longrightarrow> P (fold perform reqs s)"
  by (induction reqs arbitrary: s) (simp_all add: preserved_perform)

text \<open>Allocation holds in every state an engine reaches from an empty stack.\<close>

lemma allocated_reachable: "contexts s = [] \<Longrightarrow> allocated (fold perform reqs s)"
  using preserved_fold_perform [OF stack_property_allocated, of s reqs]
  by (simp add: allocated_def)


text \<open>
  So does the separation of the cargo objects: in every state an engine reaches from an
  empty stack, the contexts on the stack have each their own cargo.
\<close>

lemma separate_reachable: "contexts s = [] \<Longrightarrow> separate (fold perform reqs s)"
  using preserved_fold_perform [OF stack_property_separate, of s reqs]
  by (simp add: separate_def allocated_def own_cargo_def)

lemma own_cargo_reachable:
  "contexts s = [] \<Longrightarrow> own_cargo (fold perform reqs s) (contexts (fold perform reqs s))"
  using separate_reachable [of s reqs] by (simp add: separate_def)

lemma own_cargo_slice: "own_cargo s rs \<Longrightarrow> own_cargo s (slice rs a b)"
  by (simp add: own_cargo_def slice_def Let_def take_map [symmetric] drop_map [symmetric]
      distinct_take distinct_drop)

subsection \<open>What the calls add to the log and to the queue\<close>

lemma projections_append [simp]:
  "pushedEvents (a @ b) = pushedEvents a @ pushedEvents b"
  "shiftedEvents (a @ b) = shiftedEvents a @ shiftedEvents b"
  "dispatches (a @ b) = dispatches a @ dispatches b"
  by (simp_all add: pushedEvents_def shiftedEvents_def dispatches_def)

lemma projections_Nil [simp]:
  "pushedEvents [] = []" "shiftedEvents [] = []" "dispatches [] = []"
  by (simp_all add: pushedEvents_def shiftedEvents_def dispatches_def)

lemma projections_single [simp]:
  "pushedEvents [c] = pushedOf c" "shiftedEvents [c] = shiftedOf c" "dispatches [c] = dispatchOf c"
  by (simp_all add: pushedEvents_def shiftedEvents_def dispatches_def)

lemma engine_entries_quiet:
  "list_all engine_entry t \<Longrightarrow> shiftedEvents t = [] \<and> dispatches t = [] \<and> Moved \<notin> set t"
proof (induction t)
  case Nil
  show ?case by simp
next
  case (Cons c t)
  then have "engine_entry c" and rest: "shiftedEvents t = [] \<and> dispatches t = [] \<and> Moved \<notin> set t"
    by simp_all
  from \<open>engine_entry c\<close> have "shiftedOf c = [] \<and> dispatchOf c = [] \<and> c \<noteq> Moved"
    by (cases c rule: engine_entry.cases) simp_all
  then show ?case
    using rest projections_append [of "[c]" t] by auto
qed

lemma grows_refl [simp]: "grows s s"
  by (simp add: grows_def)

lemma grows_trans: "grows s s1 \<Longrightarrow> grows s1 s2 \<Longrightarrow> grows s s2"
  unfolding grows_def
proof (elim exE conjE)
  fix t u
  assume "trace s1 = trace s @ t" "list_all engine_entry t" "events s1 = events s @ pushedEvents t"
    "trace s2 = trace s1 @ u" "list_all engine_entry u" "events s2 = events s1 @ pushedEvents u"
  then have "trace s2 = trace s @ (t @ u) \<and> list_all engine_entry (t @ u) \<and>
    events s2 = events s @ pushedEvents (t @ u)" by simp
  then show "\<exists>t. trace s2 = trace s @ t \<and> list_all engine_entry t \<and>
    events s2 = events s @ pushedEvents t" by blast
qed

lemma grows_same:
  "trace s2 = trace s1 \<Longrightarrow> events s2 = events s1 \<Longrightarrow> grows s s1 \<Longrightarrow> grows s s2"
  by (simp add: grows_def)

lemma grows_stack:
  assumes "trace s2 = trace s1 @ [Stack rs]" "events s2 = events s1" "grows s s1"
  shows "grows s s2"
proof -
  from assms(3) obtain t where t: "trace s1 = trace s @ t" "list_all engine_entry t"
    "events s1 = events s @ pushedEvents t"
    unfolding grows_def by blast
  have "trace s2 = trace s @ (t @ [Stack rs]) \<and> list_all engine_entry (t @ [Stack rs]) \<and>
    events s2 = events s @ pushedEvents (t @ [Stack rs])"
    using assms(1,2) t by (simp add: pushedEvents_def)
  then show ?thesis unfolding grows_def by blast
qed

lemma grows_pushEvent: "grows s (pushEvent e s)"
  unfolding grows_def by (rule exI [of _ "[Pushed (or_empty e)]"]) simp

lemma grows_fold_pushEvent: "grows s (fold pushEvent es s)"
proof (induction es arbitrary: s)
  case Nil
  show ?case by simp
next
  case (Cons e es)
  show ?case using grows_trans [OF grows_pushEvent Cons.IH] by simp
qed

lemma grows_absorb: "grows s (absorb eff cr s)"
  unfolding absorb_def
  by (rule grows_trans [OF _ grows_fold_pushEvent]) (simp add: grows_def)

lemma grows_logged:
  "engine_entry c \<Longrightarrow> pushedOf c = [] \<Longrightarrow> grows s (s\<lparr>trace := trace s @ [c]\<rparr>)"
  unfolding grows_def by (rule exI [of _ "[c]"]) simp

lemma grows_logged_absorb:
  assumes "engine_entry c" "pushedOf c = []"
  shows "grows s (absorb eff cr (s\<lparr>trace := trace s @ [c]\<rparr>))"
  using grows_trans [OF grows_logged [OF assms] grows_absorb] .

lemma grows_notify: "grows s (notifyUpdateContexts s)"
  using grows_logged [of UpdateContexts s] by (simp add: notifyUpdateContexts_def)

lemma grows_run:
  assumes "rl \<noteq> Dispatched" "run rl r key st e cr s = (out, s')"
  shows "grows s s'"
proof -
  have "engine_entry (Run rl r key e)" using assms(1) by (cases rl) simp_all
  then have "grows s (absorb (handler st e (cargo_store s cr)) cr
      (s\<lparr>trace := trace s @ [Run rl r key e]\<rparr>))"
    by (rule grows_logged_absorb) simp
  then show ?thesis using assms(2) by (auto simp: run_def Let_def split: completion.splits)
qed

lemma grows_callOnTransition:
  assumes "callOnTransition st sys key to from cr s = (out, s')"
  shows "grows s s'"
proof (cases "onTransitionHandler st")
  case None
  then show ?thesis using assms by (simp add: callOnTransition_def)
next
  case (Some f)
  have "grows s (absorb (f to from (cargo_store s cr)) cr
      (s\<lparr>trace := trace s @ [Observed sys key to from cr]\<rparr>))"
    by (rule grows_logged_absorb) simp_all
  then show ?thesis
    using assms Some by (auto simp: callOnTransition_def Let_def split: completion.splits)
qed

lemma grows_finalizeContext: "finalizeContext r s = (out, s') \<Longrightarrow> grows s s'"
  using grows_run [of Finalizing r "''@finalize''" _ "finalizeEvent r" _ s]
  by (auto simp: finalizeContext_def Let_def split: option.splits prod.splits outcome.splits)

lemma grows_finalizeEach: "finalizeEach rs s = (outs, s') \<Longrightarrow> grows s s'"
proof (induction rs arbitrary: s outs s')
  case Nil
  then show ?case by simp
next
  case (Cons r rs)
  obtain out s1 where f: "finalizeContext r s = (out, s1)" by (cases "finalizeContext r s")
  obtain outs1 s2 where g: "finalizeEach rs s1 = (outs1, s2)" by (cases "finalizeEach rs s1")
  have "s' = s2" using Cons.prems f g by simp
  then show ?case
    using grows_trans [OF grows_finalizeContext [OF f] Cons.IH [OF g]] by simp
qed

lemma grows_removeDescendants: "removeDescendants r w s = (out, s') \<Longrightarrow> grows s s'"
proof -
  assume a: "removeDescendants r w s = (out, s')"
  let ?k = "findIndex (contexts s) r + (if w then 0 else 1)"
  obtain outs s1 where g: "finalizeEach (slice (contexts s) ?k None) s = (outs, s1)"
    by (cases "finalizeEach (slice (contexts s) ?k None) s")
  have "s' = s1 \<or>
        s' = s1\<lparr>contexts := slice (contexts s) 0 (Some ?k),
                trace := trace s1 @ [Stack (slice (contexts s) 0 (Some ?k))]\<rparr>"
    using a g by (auto simp: removeDescendants_def Let_def split: outcome.splits)
  then show ?thesis
    using grows_finalizeEach [OF g]
      grows_stack [of s' s1 "slice (contexts s) 0 (Some ?k)" s] by auto
qed

lemma grows_pushContext:
  assumes "pushContext n s = (out, s')"
  shows "grows s s'"
proof -
  define s1 where "s1 =
    s\<lparr>cargo_store := (cargo_store s)(fresh s := CargoClass s),
      ctx_store := (ctx_store s)
        (fresh s := \<lparr>system = n, currentState = ''@start'', cargo = fresh s\<rparr>),
      fresh := Suc (fresh s),
      contexts := contexts s @ [fresh s],
      trace := trace s @ [Stack (contexts s @ [fresh s])]\<rparr>"
  have g1: "grows s s1"
    using grows_stack [of s1 s "contexts s @ [fresh s]" s] by (simp add: s1_def)
  show ?thesis
  proof (cases "\<exists>sys st. systems s n = Some sys \<and> sys ''@start'' = Some st")
    case False
    then have "s' = s1"
      using assms by (auto simp: pushContext_def Let_def s1_def [symmetric] split: option.splits)
    then show ?thesis using g1 by simp
  next
    case True
    then obtain sys st where l: "systems s n = Some sys" "sys ''@start'' = Some st" by blast
    obtain o2 s2 where c: "callOnTransition st n ''@start'' n ''@start'' (fresh s) s1 = (o2, s2)"
      by (cases "callOnTransition st n ''@start'' n ''@start'' (fresh s) s1")
    have g2: "grows s s2" using grows_trans [OF g1 grows_callOnTransition [OF c]] .
    have g3: "grows s (pushEvent (Some (enteredEvent n)) (notifyUpdateContexts s2))"
      using grows_trans [OF g2 grows_trans [OF grows_notify grows_pushEvent]] .
    have "s' = s2 \<or> s' = pushEvent (Some (enteredEvent n)) (notifyUpdateContexts s2)"
      using assms l c by (auto simp: pushContext_def Let_def s1_def [symmetric] split: outcome.splits)
    then show ?thesis using g2 g3 by blast
  qed
qed

lemma grows_transitionEnd:
  assumes "transitionEnd r s = (out, s')"
  shows "grows s s'"
proof (cases "systems s (system (ctx_store s r))")
  case None
  then show ?thesis using assms by (simp add: transitionEnd_def Let_def)
next
  case (Some sys)
  obtain o1 s1 where e: "(case sys ''@end'' of
      None \<Rightarrow> (Returned None, s)
    | Some endState \<Rightarrow>
        run Ending r ''@end'' endState (endEvent r) (cargo (ctx_store s r)) s) = (o1, s1)"
    by (cases "case sys ''@end'' of
      None \<Rightarrow> (Returned None, s)
    | Some endState \<Rightarrow>
        run Ending r ''@end'' endState (endEvent r) (cargo (ctx_store s r)) s")
  have g1: "grows s s1"
    using e grows_run [of Ending] by (cases "sys ''@end''") auto
  define s2 where "s2 = s1\<lparr>contexts := butlast (contexts s1),
                            trace := trace s1 @ [Stack (butlast (contexts s1))]\<rparr>"
  have g2: "grows s s2"
    using g1 grows_stack [of s2 s1 "butlast (contexts s1)" s] by (simp add: s2_def)
  obtain o3 s3 where f: "finalizeContext (last (contexts s1)) s2 = (o3, s3)"
    by (cases "finalizeContext (last (contexts s1)) s2")
  have g3: "grows s s3" using grows_trans [OF g2 grows_finalizeContext [OF f]] .
  have g4: "grows s (notifyUpdateContexts s3)" using grows_trans [OF g3 grows_notify] .
  have "s' = s1 \<or> s' = s3 \<or> s' = notifyUpdateContexts s3"
    using assms Some e f
    by (auto simp: transitionEnd_def Let_def s2_def [symmetric] split: outcome.splits if_splits)
  then show ?thesis using g1 g3 g4 by blast
qed

lemma grows_transitionCurrent:
  assumes "transitionCurrent r s = (out, s')"
  shows "grows s s'"
proof -
  obtain o1 s1 where rd: "removeDescendants r False s = (o1, s1)"
    by (cases "removeDescendants r False s")
  have g1: "grows s s1" using grows_removeDescendants [OF rd] .
  let ?c = "ctx_store s1 r"
  show ?thesis
  proof (cases "\<exists>sys st. systems s1 (system ?c) = Some sys \<and> sys (currentState ?c) = Some st \<and>
      o1 = Returned ()")
    case False
    then have "s' = s1"
      using assms rd
      by (auto simp: transitionCurrent_def Let_def split: option.splits outcome.splits)
    then show ?thesis using g1 by simp
  next
    case True
    then obtain sys st where l: "systems s1 (system ?c) = Some sys"
      "sys (currentState ?c) = Some st" "o1 = Returned ()" by blast
    obtain o2 s2 where c: "callOnTransition st (system ?c) (currentState ?c) (currentState ?c)
        (currentState ?c) (cargo ?c) s1 = (o2, s2)"
      by (cases "callOnTransition st (system ?c) (currentState ?c) (currentState ?c)
        (currentState ?c) (cargo ?c) s1")
    have g2: "grows s s2" using grows_trans [OF g1 grows_callOnTransition [OF c]] .
    have g3: "grows s (notifyUpdateContexts (notifyUpdateContexts s2))"
      using grows_trans [OF g2 grows_trans [OF grows_notify grows_notify]] .
    have "s' = s2 \<or> s' = notifyUpdateContexts (notifyUpdateContexts s2)"
      using assms rd l c by (auto simp: transitionCurrent_def Let_def split: outcome.splits)
    then show ?thesis using g2 g3 by blast
  qed
qed

lemma grows_enterChild:
  assumes "enterChild n r s = (out, s')"
  shows "grows s s'"
proof -
  obtain o1 s1 where rd: "removeDescendants r False s = (o1, s1)"
    by (cases "removeDescendants r False s")
  have g1: "grows s s1" using grows_removeDescendants [OF rd] .
  obtain o2 s2 where pc: "pushContext n s1 = (o2, s2)" by (cases "pushContext n s1")
  have g2: "grows s s2" using grows_trans [OF g1 grows_pushContext [OF pc]] .
  have g3: "grows s (notifyUpdateContexts s2)" using grows_trans [OF g2 grows_notify] .
  have "s' = s1 \<or> s' = s2 \<or> s' = notifyUpdateContexts s2"
    using assms rd pc by (auto simp: enterChild_def split: outcome.splits)
  then show ?thesis using g1 g2 g3 by blast
qed

lemma grows_transitionState:
  assumes "transitionState n r s = (out, s')"
  shows "grows s s'"
proof -
  obtain o1 s1 where rd: "removeDescendants r False s = (o1, s1)"
    by (cases "removeDescendants r False s")
  have g1: "grows s s1" using grows_removeDescendants [OF rd] .
  show ?thesis
  proof (cases "\<exists>sys st. systems s1 (system (ctx_store s1 r)) = Some sys \<and> sys n = Some st \<and>
      o1 = Returned ()")
    case False
    then have "s' = s1"
      using assms rd
      by (auto simp: transitionState_def Let_def split: option.splits outcome.splits)
    then show ?thesis using g1 by simp
  next
    case True
    then obtain sys st where l: "systems s1 (system (ctx_store s1 r)) = Some sys" "sys n = Some st"
      "o1 = Returned ()" by blast
    obtain o2 s2 where c: "callOnTransition st (system (ctx_store s1 r)) n n
        (currentState (ctx_store s1 r)) (cargo (ctx_store s1 r)) s1 = (o2, s2)"
      by (cases "callOnTransition st (system (ctx_store s1 r)) n n
        (currentState (ctx_store s1 r)) (cargo (ctx_store s1 r)) s1")
    have g2: "grows s s2" using grows_trans [OF g1 grows_callOnTransition [OF c]] .
    define s3 where "s3 =
      s2\<lparr>ctx_store := (ctx_store s2)(r := (ctx_store s2 r)\<lparr>currentState := n\<rparr>)\<rparr>"
    have g3: "grows s s3" using g2 by (simp add: grows_def s3_def)
    have g4: "grows s (notifyUpdateContexts s3)" using grows_trans [OF g3 grows_notify] .
    have "s' = s2 \<or> s' = notifyUpdateContexts s3"
      using assms rd l c by (auto simp: transitionState_def Let_def s3_def split: outcome.splits)
    then show ?thesis using g2 g4 by blast
  qed
qed

lemma grows_transitionTo:
  assumes "transitionTo t r s = (out, s')"
  shows "grows s s'"
  using assms grows_transitionEnd grows_transitionCurrent grows_enterChild grows_transitionState
  by (auto simp: transitionTo_def transitionChild_def Let_def split: if_splits)

lemma eligible_kept: "kept s s' \<Longrightarrow> eligible e s' = eligible e s"
  by (simp add: kept_def eligible_def fun_eq_iff)

lemma kept_transitionTo_False:
  assumes "transitionTo t r s = (Returned False, s')"
  shows "kept s s'"
proof -
  have "s' = s \<or> transitionEnd r s = (Returned False, s')"
    using assms
    by (auto simp: transitionTo_def transitionCurrent_def transitionChild_def enterChild_def
        transitionState_def Let_def split: if_splits option.splits prod.splits outcome.splits)
  moreover have "kept s s'" if "transitionEnd r s = (Returned False, s')"
    using that kept_run [of Ending r "''@end''" _ "endEvent r" "cargo (ctx_store s r)" s]
    by (auto simp: transitionEnd_def Let_def
        split: option.splits prod.splits outcome.splits if_splits)
  ultimately show ?thesis by auto
qed

lemma grows_decompose:
  assumes "grows s s'"
  obtains t where "trace s' = trace s @ t" "events s' = events s @ pushedEvents t"
    "shiftedEvents t = []" "dispatches t = []" "Moved \<notin> set t"
  using assms engine_entries_quiet unfolding grows_def by blast

lemma run_Dispatched_trace:
  assumes "run Dispatched r key st e cr s = (out, s')"
  obtains t where "trace s' = trace s @ t" "events s' = events s @ pushedEvents t"
    "shiftedEvents t = []" "dispatches t = [(r, e)]" "Moved \<notin> set t"
proof -
  let ?eff = "handler st e (cargo_store s cr)"
  let ?t = "Run Dispatched r key e # map (\<lambda>x. Pushed (or_empty x)) (pushed ?eff)"
  have s': "s' = absorb ?eff cr (s\<lparr>trace := trace s @ [Run Dispatched r key e]\<rparr>)"
    using assms by (auto simp: run_def Let_def split: completion.splits)
  have p: "pushedEvents (map (\<lambda>x. Pushed (or_empty x)) xs) = map or_empty xs"
    "shiftedEvents (map (\<lambda>x. Pushed (or_empty x)) xs) = []"
    "dispatches (map (\<lambda>x. Pushed (or_empty x)) xs) = []" for xs
    by (induction xs) (simp_all add: pushedEvents_def shiftedEvents_def dispatches_def)
  have "trace s' = trace s @ ?t" "events s' = events s @ pushedEvents ?t"
    "shiftedEvents ?t = []" "dispatches ?t = [(r, e)]" "Moved \<notin> set ?t"
    using p projections_append [of "[Run Dispatched r key e]"]
    by (auto simp: s')
  then show ?thesis using that by blast
qed

lemma traced_Nil [simp]: "traced s [] s"
  by (simp add: traced_def)

lemma traced_trans: "traced s t s1 \<Longrightarrow> traced s1 u s2 \<Longrightarrow> traced s (t @ u) s2"
  by (simp add: traced_def)

lemma doBody_trace:
  assumes "doBody e r s = (out, s')"
  obtains t where "traced s t s'"
    and "out = Returned Continue \<Longrightarrow>
           kept s s' \<and> Moved \<notin> set t \<and> dispatches t = (if eligible e s r then [(r, e)] else [])"
    and "out = Returned Break \<Longrightarrow>
           eligible e s r \<and> dispatches t = [(r, e)] \<and> (\<exists>t0. t = t0 @ [Moved] \<and> Moved \<notin> set t0)"
    and "\<And>x. out = Raised x \<Longrightarrow>
           Moved \<notin> set t \<and> (dispatches t = [] \<or> eligible e s r \<and> dispatches t = [(r, e)])"
proof -
  let ?c = "ctx_store s r"
  show ?thesis
  proof (cases "\<exists>sys st. systems s (system ?c) = Some sys \<and> sys (currentState ?c) = Some st \<and>
      targetsOther e (system ?c) = Returned False")
    case False
    then have "s' = s \<and> (out = Returned Continue \<longrightarrow> \<not> eligible e s r) \<and> out \<noteq> Returned Break"
      using assms
      by (auto simp: doBody_def eligible_def Let_def
          split: option.splits outcome.splits bool.splits)
    then show ?thesis using that [of "[]"] by simp
  next
    case True
    then obtain sys st where l: "systems s (system ?c) = Some sys"
      "sys (currentState ?c) = Some st" "targetsOther e (system ?c) = Returned False" by blast
    have el: "eligible e s r" using l(3) by (simp add: eligible_def)
    obtain o1 s1 where rn: "run Dispatched r (currentState ?c) st e (cargo ?c) s = (o1, s1)"
      by (cases "run Dispatched r (currentState ?c) st e (cargo ?c) s")
    from run_Dispatched_trace [OF rn]
    obtain t1 where t1: "traced s t1 s1" "dispatches t1 = [(r, e)]" "Moved \<notin> set t1"
      unfolding traced_def by metis
    have k1: "kept s s1" using kept_run [OF rn] .
    show ?thesis
    proof (cases "\<exists>tok. o1 = Returned tok \<and> truthy tok")
      case False
      then have "s' = s1 \<and> out \<noteq> Returned Break"
        using assms l rn by (auto simp: doBody_def Let_def split: outcome.splits)
      then show ?thesis using that [of t1] t1 k1 el by simp
    next
      case True
      then obtain tok where tk: "o1 = Returned tok" "truthy tok" by blast
      obtain o2 s2 where tr: "transitionTo (the tok) r s1 = (o2, s2)"
        by (cases "transitionTo (the tok) r s1")
      from grows_decompose [OF grows_transitionTo [OF tr]]
      obtain t2 where t2: "traced s1 t2 s2" "dispatches t2 = []" "Moved \<notin> set t2"
        unfolding traced_def by metis
      have t12: "traced s (t1 @ t2) s2" using traced_trans [OF t1(1) t2(1)] .
      have body: "(out, s') =
        (case o2 of
           Raised x \<Rightarrow> (Raised x, s2)
         | Returned True \<Rightarrow> (Returned Break, s2\<lparr>trace := trace s2 @ [Moved]\<rparr>)
         | Returned False \<Rightarrow> (Returned Continue, s2))"
        using assms l rn tk tr by (simp add: doBody_def Let_def)
      show ?thesis
      proof (cases o2)
        case (Raised x)
        then have "out = Raised x" "s' = s2" using body by simp_all
        then show ?thesis using that [of "t1 @ t2"] t12 t1 t2 el by simp
      next
        case (Returned b)
        show ?thesis
        proof (cases b)
          case True
          then have o: "out = Returned Break" "s' = s2\<lparr>trace := trace s2 @ [Moved]\<rparr>"
            using body Returned by simp_all
          have "traced s ((t1 @ t2) @ [Moved]) s'"
            using t12 o(2) by (simp add: traced_def)
          then show ?thesis using that [of "(t1 @ t2) @ [Moved]"] o(1) t1 t2 el by simp
        next
          case False
          then have o: "out = Returned Continue" "s' = s2" using body Returned by simp_all
          have "kept s s2"
            using kept_trans [OF k1 kept_transitionTo_False] tr Returned False by simp
          then show ?thesis using that [of "t1 @ t2"] o t12 t1 t2 el by simp
        qed
      qed
    qed
  qed
qed

lemma moved_last_prepend: "Moved \<notin> set t \<Longrightarrow> moved_last u \<Longrightarrow> moved_last (t @ u)"
  unfolding moved_last_def by (metis Un_iff append.assoc set_append)

lemma offered_step:
  assumes "i < length (contexts s)" "Suc i \<le> k"
  shows "offered e s i k =
    (if eligible e s (contexts s ! i) then [(contexts s ! i, e)] else []) @ offered e s (Suc i) k"
proof -
  have "drop i (contexts s) = contexts s ! i # drop (Suc i) (contexts s)"
    using assms(1) by (simp add: Cons_nth_drop_Suc)
  moreover have "k - i = Suc (k - Suc i)" using assms(2) by simp
  ultimately show ?thesis by (simp add: offered_def)
qed

lemma offered_one:
  assumes "i < length (contexts s)"
  shows "offered e s i (Suc i) = (if eligible e s (contexts s ! i) then [(contexts s ! i, e)] else [])"
  using offered_step [OF assms, of "Suc i" e] by (simp add: offered_def)

lemma doLoop_trace:
  "doLoop e i s = (out, s') \<Longrightarrow>
   \<exists>t k. traced s t s' \<and> i \<le> k \<and> (k \<le> length (contexts s) \<or> k = i) \<and>
         dispatches t = offered e s i k \<and> moved_last t \<and>
         (Moved \<notin> set t \<and> out = Returned () \<longrightarrow>
            kept s s' \<and> (i \<le> length (contexts s) \<longrightarrow> k = length (contexts s))) \<and>
         (Moved \<in> set t \<longrightarrow>
            out = Returned () \<and> i < k \<and> k \<le> length (contexts s) \<and>
            eligible e s (contexts s ! (k - 1)))"
proof (induction e i s arbitrary: out s' rule: doLoop.induct)
  case (1 event i s)
  show ?case
  proof (cases "i < length (contexts s)")
    case False
    then have "s' = s" using "1.prems" by (simp add: doLoop.simps)
    then have "traced s [] s' \<and> i \<le> i \<and> (i \<le> length (contexts s) \<or> i = i) \<and>
         dispatches [] = offered event s i i \<and> moved_last [] \<and>
         (Moved \<notin> set [] \<and> out = Returned () \<longrightarrow>
            kept s s' \<and> (i \<le> length (contexts s) \<longrightarrow> i = length (contexts s))) \<and>
         (Moved \<in> set [] \<longrightarrow>
            out = Returned () \<and> i < i \<and> i \<le> length (contexts s) \<and>
            eligible event s (contexts s ! (i - 1)))"
      using False by (simp add: offered_def moved_last_def)
    then show ?thesis by blast
  next
    case True
    let ?r = "contexts s ! i"
    obtain o1 s1 where b: "doBody event ?r s = (o1, s1)"
      by (cases "doBody event ?r s")
    from doBody_trace [OF b] obtain t1 where t1: "traced s t1 s1"
      and cont: "o1 = Returned Continue \<Longrightarrow>
           kept s s1 \<and> Moved \<notin> set t1 \<and>
           dispatches t1 = (if eligible event s ?r then [(?r, event)] else [])"
      and brk: "o1 = Returned Break \<Longrightarrow>
           eligible event s ?r \<and> dispatches t1 = [(?r, event)] \<and>
           (\<exists>t0. t1 = t0 @ [Moved] \<and> Moved \<notin> set t0)"
      and rsd: "\<And>x. o1 = Raised x \<Longrightarrow>
           Moved \<notin> set t1 \<and>
           (dispatches t1 = [] \<or> eligible event s ?r \<and> dispatches t1 = [(?r, event)])"
      by metis
    show ?thesis
    proof (cases "o1 = Returned Continue")
      case c: True
      then have rec: "doLoop event (Suc i) s1 = (out, s')"
        using "1.prems" True b by (subst (asm) doLoop.simps) simp
      from "1.IH" [OF True b [symmetric] c refl rec]
      obtain t2 k where t2: "traced s1 t2 s'" "Suc i \<le> k"
        "k \<le> length (contexts s1) \<or> k = Suc i" "dispatches t2 = offered event s1 (Suc i) k"
        "moved_last t2"
        and a2: "Moved \<notin> set t2 \<and> out = Returned () \<longrightarrow>
            kept s1 s' \<and> (Suc i \<le> length (contexts s1) \<longrightarrow> k = length (contexts s1))"
        and b2: "Moved \<in> set t2 \<longrightarrow>
            out = Returned () \<and> Suc i < k \<and> k \<le> length (contexts s1) \<and>
            eligible event s1 (contexts s1 ! (k - 1))"
        by blast
      have k1: "kept s s1" and nm: "Moved \<notin> set t1"
        and d1: "dispatches t1 = (if eligible event s ?r then [(?r, event)] else [])"
        using cont [OF c] by simp_all
      have cs: "contexts s1 = contexts s" using k1 by (simp add: kept_def)
      have el: "eligible event s1 = eligible event s" using eligible_kept [OF k1] .
      have same: "offered event s1 (Suc i) k = offered event s (Suc i) k"
        using cs el by (simp add: offered_def)
      have len: "k \<le> length (contexts s)"
        using t2(3) k1 True by (auto simp: kept_def)
      have a: "Moved \<notin> set (t1 @ t2) \<and> out = Returned () \<longrightarrow>
            kept s s' \<and> (i \<le> length (contexts s) \<longrightarrow> k = length (contexts s))"
        using a2 cs True kept_trans [OF k1] by auto
      have bb: "Moved \<in> set (t1 @ t2) \<longrightarrow>
            out = Returned () \<and> i < k \<and> k \<le> length (contexts s) \<and>
            eligible event s (contexts s ! (k - 1))"
        using b2 nm cs el by auto
      have "dispatches (t1 @ t2) = offered event s i k"
        using d1 t2(4) same offered_step [OF True t2(2), of event] by simp
      then have "traced s (t1 @ t2) s' \<and> i \<le> k \<and> (k \<le> length (contexts s) \<or> k = i) \<and>
         dispatches (t1 @ t2) = offered event s i k \<and> moved_last (t1 @ t2) \<and>
         (Moved \<notin> set (t1 @ t2) \<and> out = Returned () \<longrightarrow>
            kept s s' \<and> (i \<le> length (contexts s) \<longrightarrow> k = length (contexts s))) \<and>
         (Moved \<in> set (t1 @ t2) \<longrightarrow>
            out = Returned () \<and> i < k \<and> k \<le> length (contexts s) \<and>
            eligible event s (contexts s ! (k - 1)))"
        using traced_trans [OF t1 t2(1)] t2(2) len moved_last_prepend [OF nm t2(5)] a bb
        by simp
      then show ?thesis by blast
    next
      case nc: False
      then have s': "s' = s1"
        and o: "out = (case o1 of Raised x \<Rightarrow> Raised x | Returned f \<Rightarrow> Returned ())"
        using "1.prems" True b
        by (subst (asm) doLoop.simps; auto split: outcome.splits flow.splits)+
      show ?thesis
      proof (cases o1)
        case (Raised x)
        have nm: "Moved \<notin> set t1" and ml: "moved_last t1"
          using rsd [OF Raised] by (simp_all add: moved_last_def)
        have out: "out \<noteq> Returned ()" using o Raised by simp
        show ?thesis
        proof (cases "dispatches t1 = []")
          case True
          have "traced s t1 s' \<and> i \<le> i \<and> (i \<le> length (contexts s) \<or> i = i) \<and>
            dispatches t1 = offered event s i i \<and> moved_last t1 \<and>
            (Moved \<notin> set t1 \<and> out = Returned () \<longrightarrow>
               kept s s' \<and> (i \<le> length (contexts s) \<longrightarrow> i = length (contexts s))) \<and>
            (Moved \<in> set t1 \<longrightarrow>
               out = Returned () \<and> i < i \<and> i \<le> length (contexts s) \<and>
               eligible event s (contexts s ! (i - 1)))"
            using t1 s' True ml nm out by (simp add: offered_def)
          then show ?thesis by blast
        next
          case False
          then have "eligible event s ?r \<and> dispatches t1 = [(?r, event)]"
            using rsd [OF Raised] by auto
          then have "traced s t1 s' \<and> i \<le> Suc i \<and>
            (Suc i \<le> length (contexts s) \<or> Suc i = i) \<and>
            dispatches t1 = offered event s i (Suc i) \<and> moved_last t1 \<and>
            (Moved \<notin> set t1 \<and> out = Returned () \<longrightarrow>
               kept s s' \<and> (i \<le> length (contexts s) \<longrightarrow> Suc i = length (contexts s))) \<and>
            (Moved \<in> set t1 \<longrightarrow>
               out = Returned () \<and> i < Suc i \<and> Suc i \<le> length (contexts s) \<and>
               eligible event s (contexts s ! (Suc i - 1)))"
            using t1 s' \<open>i < length (contexts s)\<close> offered_one [of i s event] ml nm out by simp
          then show ?thesis by blast
        qed
      next
        case (Returned f)
        then have br: "o1 = Returned Break" using nc by (cases f) simp_all
        have out: "out = Returned ()" using o Returned by simp
        have f: "eligible event s ?r" "dispatches t1 = [(?r, event)]" "moved_last t1"
          "Moved \<in> set t1"
          using brk [OF br] by (auto simp: moved_last_def)
        have "traced s t1 s' \<and> i \<le> Suc i \<and>
            (Suc i \<le> length (contexts s) \<or> Suc i = i) \<and>
            dispatches t1 = offered event s i (Suc i) \<and> moved_last t1 \<and>
            (Moved \<notin> set t1 \<and> out = Returned () \<longrightarrow>
               kept s s' \<and> (i \<le> length (contexts s) \<longrightarrow> Suc i = length (contexts s))) \<and>
            (Moved \<in> set t1 \<longrightarrow>
               out = Returned () \<and> i < Suc i \<and> Suc i \<le> length (contexts s) \<and>
               eligible event s (contexts s ! (Suc i - 1)))"
          using t1 s' \<open>i < length (contexts s)\<close> offered_one [of i s event] f out by simp
        then show ?thesis by blast
      qed
    qed
  qed
qed


lemma do_trace:
  assumes "events s = e # es"
  shows "\<exists>out s' t k. do s = Some (out, s') \<and> trace s' = trace s @ Shifted e # t \<and>
           events s' = es @ pushedEvents t \<and> shiftedEvents t = [] \<and>
           k \<le> length (contexts s) \<and> dispatches t = offered e s 0 k \<and> moved_last t \<and>
           (Moved \<notin> set t \<and> (\<exists>b. out = Returned b) \<longrightarrow>
              k = length (contexts s) \<and> contexts s' = contexts s \<and> ctx_store s' = ctx_store s) \<and>
           (Moved \<in> set t \<longrightarrow>
              (\<exists>b. out = Returned b) \<and> 0 < k \<and> eligible e s (contexts s ! (k - 1)))"
proof -
  define s0 where "s0 = s\<lparr>events := es, trace := trace s @ [Shifted e]\<rparr>"
  obtain o1 s1 where l: "doLoop e 0 s0 = (o1, s1)" by (cases "doLoop e 0 s0")
  from doLoop_trace [OF l] obtain t k where tk: "traced s0 t s1"
    "k \<le> length (contexts s0) \<or> k = 0" "dispatches t = offered e s0 0 k" "moved_last t"
    and a: "Moved \<notin> set t \<and> o1 = Returned () \<longrightarrow>
            kept s0 s1 \<and> (0 \<le> length (contexts s0) \<longrightarrow> k = length (contexts s0))"
    and b: "Moved \<in> set t \<longrightarrow>
            o1 = Returned () \<and> 0 < k \<and> k \<le> length (contexts s0) \<and>
            eligible e s0 (contexts s0 ! (k - 1))"
    by blast
  have el: "eligible e s0 = eligible e s"
    by (simp add: eligible_def s0_def fun_eq_iff)
  then have off: "offered e s0 0 k = offered e s 0 k"
    by (simp add: offered_def s0_def)
  define out where
    "out = (case o1 of Raised x \<Rightarrow> Raised x | Returned u \<Rightarrow> Returned (contexts s1 \<noteq> []))"
  have d: "do s = Some (out, s1)"
    using assms l by (simp add: do_def nextEvent_def s0_def out_def split: outcome.splits)
  have ret: "(\<exists>b. out = Returned b) \<longleftrightarrow> o1 = Returned ()"
    by (cases o1) (simp_all add: out_def)
  have f: "trace s1 = trace s @ Shifted e # t" "events s1 = es @ pushedEvents t"
    "shiftedEvents t = []" "k \<le> length (contexts s)"
    using tk(1,2) by (auto simp: traced_def s0_def)
  have g: "dispatches t = offered e s 0 k" using tk(3) off by simp
  have a': "Moved \<notin> set t \<and> (\<exists>b. out = Returned b) \<longrightarrow>
      k = length (contexts s) \<and> contexts s1 = contexts s \<and> ctx_store s1 = ctx_store s"
    using a ret by (auto simp: kept_def s0_def)
  have b': "Moved \<in> set t \<longrightarrow>
      (\<exists>b. out = Returned b) \<and> 0 < k \<and> eligible e s (contexts s ! (k - 1))"
    using b ret el by (auto simp: s0_def)
  have "do s = Some (out, s1) \<and> trace s1 = trace s @ Shifted e # t \<and>
           events s1 = es @ pushedEvents t \<and> shiftedEvents t = [] \<and>
           k \<le> length (contexts s) \<and> dispatches t = offered e s 0 k \<and> moved_last t \<and>
           (Moved \<notin> set t \<and> (\<exists>b. out = Returned b) \<longrightarrow>
              k = length (contexts s) \<and> contexts s1 = contexts s \<and> ctx_store s1 = ctx_store s) \<and>
           (Moved \<in> set t \<longrightarrow>
              (\<exists>b. out = Returned b) \<and> 0 < k \<and> eligible e s (contexts s ! (k - 1)))"
    using d f g tk(4) a' b' by blast
  then show ?thesis by blast
qed

lemma fifo_grows: "fifo s \<Longrightarrow> grows s s' \<Longrightarrow> fifo s'"
proof -
  assume a: "fifo s" and g: "grows s s'"
  from grows_decompose [OF g] obtain t where "trace s' = trace s @ t"
    "events s' = events s @ pushedEvents t" "shiftedEvents t = []" by blast
  then show ?thesis using a by (simp add: fifo_def)
qed

lemma fifo_do:
  assumes "fifo s" "do s = Some (out, s')"
  shows "fifo s'"
proof -
  obtain e es where ev: "events s = e # es"
    using assms(2) by (cases "events s") (simp_all add: do_def nextEvent_def)
  from do_trace [OF ev] assms(2) obtain t where "trace s' = trace s @ Shifted e # t"
    "events s' = es @ pushedEvents t" "shiftedEvents t = []" by auto
  then show ?thesis
    using assms(1) ev projections_append [of "[Shifted e]" t] by (simp add: fifo_def)
qed

lemma fifo_perform: "fifo s \<Longrightarrow> fifo (perform req s)"
proof (cases req)
  case (RegisterSystem n sys)
  assume "fifo s"
  then show ?thesis using RegisterSystem by (simp add: fifo_def registerSystem_def)
next
  case (PushContext n)
  assume "fifo s"
  then show ?thesis
    using PushContext fifo_grows [OF _ grows_pushContext, of s n "fst (pushContext n s)"
        "snd (pushContext n s)"] by simp
next
  case (PushEvent e)
  assume "fifo s"
  then show ?thesis using PushEvent fifo_grows [OF _ grows_pushEvent] by simp
next
  case Do
  assume "fifo s"
  then show ?thesis using Do fifo_do [of s] by (auto split: option.splits)
qed

lemma fifo_fold_perform: "fifo s \<Longrightarrow> fifo (fold perform reqs s)"
  by (induction reqs arbitrary: s) (simp_all add: fifo_perform)

lemma offered_events: "map snd (offered e s i k) = replicate (length (offered e s i k)) e"
  by (simp add: offered_def comp_def map_replicate_const)

subsection \<open>What the finalizations of a truncation do\<close>




lemma finalizeEntries_runs: "filter is_run (concat (map (finalizeEntries s) rs)) = finalizeRuns s rs"
  by (induction rs)
    (auto simp: finalizeRuns_def finalizeEntries_def entriesOf_def finalizable_def
       finalizeState_def split: option.splits)



subsection \<open>What a step without a transition does\<close>








section \<open>Properties of the transition engine\<close>

text \<open>
  C4. Asking for the state the context is already in (the token being neither \<^verbatim>\<open>@end\<close> nor
  \<^verbatim>\<open>@current\<close>) is rejected: the engine returns \<^verbatim>\<open>false\<close> and the whole state is what it
  was: the stack, every context object, every cargo, the queue, and the log, so that no
  observer ran and the hook was not notified.
\<close>

theorem same_state_rejected:
  assumes "stateName = currentState (ctx_store s context)"
    and "stateName \<noteq> ''@end''"
    and "stateName \<noteq> ''@current''"
  shows "transitionTo stateName context s = (Returned False, s)"
  using assms by (simp add: transitionTo_def)

theorem same_state_rejected_witness:
  "''state1'' = currentState (ctx_store demo2 0) \<and> ''state1'' \<noteq> ''@end'' \<and>
   ''state1'' \<noteq> ''@current'' \<and> transitionTo ''state1'' 0 demo2 = (Returned False, demo2)"
  using same_state_rejected [of "''state1''" demo2 0] by (simp add: demo_defs)

text \<open>
  C5. A context on the stack asks for \<^verbatim>\<open>#S\<close>, \<open>S\<close> not being \<^verbatim>\<open>@current\<close>, while the slot
  right after it already holds a context of system \<open>S\<close>: the engine returns \<^verbatim>\<open>false\<close> and
  the state is what it was, so the depth of the stack, the child context and its cargo are
  the same objects with the same contents.
\<close>

theorem child_entry_idempotent:
  assumes "contexts s = outer @ context # child # deeper"
    and "context \<notin> set outer"
    and "system (ctx_store s child) = S"
    and "S \<noteq> ''@current''"
  shows "transitionTo (CHR ''#'' # S) context s = (Returned False, s)"
proof -
  have idx: "findIndex (contexts s) context = int (length outer)"
    using assms(1,2) by (simp add: findIndex_first)
  have "at (contexts s) (int (length outer) + 1) = Some child"
    using assms(1) at_nth [of "Suc (length outer)" "contexts s"]
    by (simp add: nth_append add.commute)
  then have "transitionChild (CHR ''#'' # S) context s = (Returned False, s)"
    using assms(3,4) idx by (simp add: transitionChild_def Let_def)
  then show ?thesis
    by (simp add: transitionTo_def)
qed

theorem child_entry_idempotent_witness:
  "contexts demo2 = [] @ 0 # 1 # [] \<and> 0 \<notin> set ([] :: nat list) \<and>
   system (ctx_store demo2 1) = ''sub'' \<and> ''sub'' \<noteq> ''@current'' \<and>
   transitionTo ''#sub'' 0 demo2 = (Returned False, demo2)"
  using child_entry_idempotent [of demo2 "[]" 0 1 "[]" "''sub''"] by (simp add: demo_defs)

text \<open>
  C10. With a non-empty stack, a dequeued event of type \<^verbatim>\<open>automata\<close> and name
  \<^verbatim>\<open>transition\<close> that has no \<^verbatim>\<open>data\<close> makes the step fail with a TypeError at the first
  context: the event is consumed, no handler runs. When the type or the name differs, the
  filter does not read \<^verbatim>\<open>data\<close> and lets the context have the event.
\<close>

theorem transition_event_without_data_fails:
  "(contexts s \<noteq> [] \<and> events s = e # es \<and> type e = Some ''automata'' \<and>
      name e = Some ''transition'' \<and> data e = None \<longrightarrow>
    do s = Some (Raised TypeError, s\<lparr>events := es, trace := trace s @ [Shifted e]\<rparr>)) \<and>
   (type e \<noteq> Some ''automata'' \<or> name e \<noteq> Some ''transition'' \<longrightarrow>
    targetsOther (e\<lparr>data := None\<rparr>) sys = Returned False)"
proof -
  have "doLoop e 0 s0 = (Raised TypeError, s0)"
    if "contexts s0 \<noteq> []" "type e = Some ''automata''" "name e = Some ''transition''"
      "data e = None" for s0 :: "'a Automata"
    using that
    by (subst doLoop.simps) (simp add: doBody_def targetsOther_def Let_def split: option.splits)
  then show ?thesis
    by (auto simp: do_def nextEvent_def targetsOther_def)
qed

theorem transition_event_without_data_fails_witness:
  "contexts demo3 \<noteq> [] \<and>
   events demo3 = [\<lparr>type = Some ''automata'', name = Some ''transition'', data = None\<rparr>] \<and>
   do demo3 =
     Some (Raised TypeError,
           demo3\<lparr>events := [],
                 trace := trace demo3 @
                   [Shifted \<lparr>type = Some ''automata'', name = Some ''transition'', data = None\<rparr>]\<rparr>) \<and>
   type empty_event \<noteq> Some ''automata'' \<and>
   targetsOther (empty_event\<lparr>data := None\<rparr>) ''main'' = Returned False"
  using transition_event_without_data_fails
      [of demo3 "\<lparr>type = Some ''automata'', name = Some ''transition'', data = None\<rparr>" "[]"
        "''main''"]
    transition_event_without_data_fails [of demo3 empty_event "[]" "''main''"]
  by (simp add: demo_defs empty_event_def)

text \<open>
  C1. The context on top of the stack asks for \<^verbatim>\<open>@end\<close>, its system being registered and no
  handler throwing. The engine returns \<^verbatim>\<open>true\<close>. The log gains, in this order: the run of
  \<^verbatim>\<open>@end\<close> for that context with what its handler pushes, if the system defines \<^verbatim>\<open>@end\<close>;
  the write of the stack, which is then the old stack without its last element; the run of
  \<^verbatim>\<open>@finalize\<close> for the popped context with what its handler pushes, if the system defines
  \<^verbatim>\<open>@finalize\<close>; the call of the hook, if one is installed. The cargo of the ended context
  holds what the \<^verbatim>\<open>@finalize\<close> handler made of what the \<^verbatim>\<open>@end\<close> handler made of the old
  value; no other cargo and no context object changes; the queue gains the pushes of the two
  handlers. What the \<^verbatim>\<open>@end\<close> handler returns plays no part.
\<close>

theorem end_pops_top:
  assumes "contexts s = outer @ [context]"
    and "systems s (system (ctx_store s context)) = Some sys"
    and "handlers_return s"
    and "transitionTo ''@end'' context s = (out, s')"
  shows "let cr = cargo (ctx_store s context);
             ending = effectOf (sys ''@end'') (endEvent context) (cargo_store s cr);
             finalizing = effectOf (sys ''@finalize'') (finalizeEvent context) (cargo_after ending)
         in out = Returned True \<and>
            contexts s' = outer \<and>
            length (contexts s') = length (contexts s) - 1 \<and>
            ctx_store s' = ctx_store s \<and>
            cargo_store s' = (cargo_store s)(cr := cargo_after finalizing) \<and>
            events s' =
              events s @ map or_empty (pushed ending) @ map or_empty (pushed finalizing) \<and>
            trace s' =
              trace s @
              entriesOf Ending context ''@end'' (sys ''@end'') (endEvent context) ending @
              [Stack outer] @
              entriesOf Finalizing context ''@finalize'' (sys ''@finalize'')
                (finalizeEvent context) finalizing @
              (if onUpdateContexts s then [UpdateContexts] else [])"
proof -
  let ?c = "ctx_store s context"
  define ending where "ending = effectOf (sys ''@end'') (endEvent context) (cargo_store s (cargo ?c))"
  define finalizing where
    "finalizing = effectOf (sys ''@finalize'') (finalizeEvent context) (cargo_after ending)"
  define s1 where "s1 =
    (case sys ''@end'' of
       None \<Rightarrow> s
     | Some st \<Rightarrow>
         absorb (handler st (endEvent context) (cargo_store s (cargo ?c))) (cargo ?c)
           (s\<lparr>trace := trace s @ [Run Ending context ''@end'' (endEvent context)]\<rparr>))"
  have ended: "\<exists>t. (case sys ''@end'' of
             None \<Rightarrow> (Returned None, s)
           | Some endState \<Rightarrow> run Ending context ''@end'' endState (endEvent context) (cargo ?c) s)
         = (Returned t, s1)"
  proof (cases "sys ''@end''")
    case None
    then show ?thesis by (simp add: s1_def)
  next
    case (Some st)
    from run_result [OF assms(3,2) Some] show ?thesis using Some by (simp add: s1_def)
  qed
  have k1: "systems s1 = systems s" "contexts s1 = contexts s" "ctx_store s1 = ctx_store s"
    "onUpdateContexts s1 = onUpdateContexts s"
    by (simp_all add: s1_def split: option.splits)
  have v1: "cargo_store s1 = (cargo_store s)(cargo ?c := cargo_after ending)"
    "events s1 = events s @ map or_empty (pushed ending)"
    "trace s1 = trace s @ entriesOf Ending context ''@end'' (sys ''@end'') (endEvent context) ending"
    by (simp_all add: s1_def ending_def effectOf_def idle_def entriesOf_def split: option.splits)
  have h1: "handlers_return s1"
    using assms(3) k1 by (simp add: handlers_return_def)
  define s2 where "s2 = s1\<lparr>contexts := outer, trace := trace s1 @ [Stack outer]\<rparr>"
  have h2: "handlers_return s2"
    using h1 by (simp add: handlers_return_def s2_def)
  have sys2: "systems s2 (system (ctx_store s2 context)) = Some sys"
    using assms(2) k1 by (simp add: s2_def)
  note fin = finalizeContext_result [OF h2 sys2]
  define s3 where "s3 =
    (case sys ''@finalize'' of
       None \<Rightarrow> s2
     | Some st \<Rightarrow>
         absorb (handler st (finalizeEvent context) (cargo_store s2 (cargo (ctx_store s2 context))))
           (cargo (ctx_store s2 context))
           (s2\<lparr>trace := trace s2 @ [Run Finalizing context ''@finalize'' (finalizeEvent context)]\<rparr>))"
  have res: "transitionEnd context s = (Returned True, notifyUpdateContexts s3)"
    using ended assms(1,2) k1 fin
    by (auto simp: transitionEnd_def Let_def s2_def [symmetric] s3_def [symmetric])
  then have out: "out = Returned True" and s': "s' = notifyUpdateContexts s3"
    using assms(4) by (simp_all add: transitionTo_def)
  have c3: "contexts s3 = outer" "ctx_store s3 = ctx_store s"
    "onUpdateContexts s3 = onUpdateContexts s"
    using k1 by (simp_all add: s3_def s2_def split: option.splits)
  have v2: "cargo_store s2 (cargo (ctx_store s2 context)) = cargo_after ending"
    using k1 v1 by (simp add: s2_def)
  have v3: "cargo_store s3 = (cargo_store s)(cargo ?c := cargo_after finalizing)"
    using k1 v1 v2
    by (simp add: s3_def s2_def finalizing_def effectOf_def idle_def split: option.splits)
  have e3: "events s3 = events s @ map or_empty (pushed ending) @ map or_empty (pushed finalizing)"
    using k1 v1 v2
    by (simp add: s3_def s2_def finalizing_def effectOf_def idle_def split: option.splits)
  have t3: "trace s3 = trace s @
      entriesOf Ending context ''@end'' (sys ''@end'') (endEvent context) ending @
      [Stack outer] @
      entriesOf Finalizing context ''@finalize'' (sys ''@finalize'') (finalizeEvent context)
        finalizing"
    using k1 v1 v2
    by (simp add: s3_def s2_def finalizing_def effectOf_def idle_def entriesOf_def
        split: option.splits)
  show ?thesis
    unfolding Let_def ending_def [symmetric] finalizing_def [symmetric]
    using out s' c3 v3 e3 t3 assms(1) by simp
qed

theorem end_pops_top_witness:
  "contexts demo2 = [0] @ [1] \<and> systems demo2 (system (ctx_store demo2 1)) = Some sub_system \<and>
   handlers_return demo2 \<and>
   fst (transitionTo ''@end'' 1 demo2) = Returned True \<and>
   contexts (snd (transitionTo ''@end'' 1 demo2)) = [0] \<and>
   cargo_store (snd (transitionTo ''@end'' 1 demo2)) 1 = 1 \<and>
   events (snd (transitionTo ''@end'' 1 demo2)) = [leaved] \<and>
   trace (snd (transitionTo ''@end'' 1 demo2)) =
     [Run Ending 1 ''@end'' (endEvent 1), Pushed leaved, Stack [0],
      Run Finalizing 1 ''@finalize'' (finalizeEvent 1), UpdateContexts]"
proof -
  have a: "contexts demo2 = [0] @ [1]" by (simp add: demo_defs)
  have b: "systems demo2 (system (ctx_store demo2 1)) = Some sub_system" by (simp add: demo_defs)
  have c: "handlers_return demo2" by (rule handlers_return_demo)
  have d: "transitionTo ''@end'' 1 demo2 = (fst (transitionTo ''@end'' 1 demo2), snd (transitionTo ''@end'' 1 demo2))"
    by simp
  have e: "trace demo2 = []" "events demo2 = []" "onUpdateContexts demo2"
    "cargo_store demo2 1 = 0" "cargo (ctx_store demo2 1) = 1"
    by (simp_all add: demo_defs)
  have f: "effectOf (sub_system ''@end'') (endEvent 1) 0 =
      \<lparr>cargo_after = 0, pushed = [Some leaved], completion = Returns None\<rparr>"
    "effectOf (sub_system ''@finalize'') (finalizeEvent 1) 0 =
      \<lparr>cargo_after = 1, pushed = [], completion = Returns None\<rparr>"
    "sub_system ''@end'' \<noteq> None" "sub_system ''@finalize'' \<noteq> None"
    by (simp_all add: effectOf_def sub_system_def counting_def)
  from end_pops_top [OF a b c d] a b c e f show ?thesis
    by (auto simp: Let_def entriesOf_def or_empty_def)
qed







section \<open>Properties of the step function and of sequences of calls\<close>

text \<open>
  C9. No context on the stack is ever in a state named \<^verbatim>\<open>@end\<close> or \<^verbatim>\<open>@current\<close> or
  starting with \<^verbatim>\<open>#\<close>: \<^verbatim>\<open>pushContext\<close>, every branch of \<^verbatim>\<open>_transitionTo\<close> (for any
  token and any context object), the loop of \<^verbatim>\<open>do\<close> and \<^verbatim>\<open>do\<close> itself keep this, whether
  they return or raise; so it holds after any sequence of calls on an engine that started
  with an empty stack. These three are the only names that are intercepted: the state of a
  context can be any other name, the reserved \<^verbatim>\<open>@finalize\<close> included (see below).
\<close>

theorem currentState_never_reserved:
  "(unreserved s \<longrightarrow>
      unreserved (snd (pushContext systemName s)) \<and>
      unreserved (snd (transitionTo stateName context s)) \<and>
      unreserved (snd (doLoop event i s)) \<and>
      (\<forall>out s'. do s = Some (out, s') \<longrightarrow> unreserved s')) \<and>
   (contexts s = [] \<longrightarrow> unreserved (fold perform reqs s))"
proof -
  note sp = stack_property_unreserved
  have "unreserved (snd (pushContext systemName s))" if "unreserved s"
    using preserved_pushContext [OF sp that] by (metis prod.collapse)
  moreover have "unreserved (snd (transitionTo stateName context s))" if "unreserved s"
    using preserved_transitionTo [OF sp that] by (metis prod.collapse)
  moreover have "unreserved (snd (doLoop event i s))" if "unreserved s"
    using preserved_doLoop [OF sp that] by (metis prod.collapse)
  moreover have "unreserved s'" if "unreserved s" "do s = Some (out, s')" for out s'
    using preserved_do [OF sp that] .
  moreover have "unreserved (fold perform reqs s)" if "contexts s = []"
    using preserved_fold_perform [OF sp, of s reqs] that by (simp add: unreserved_def)
  ultimately show ?thesis by blast
qed

theorem currentState_never_reserved_witness:
  "unreserved demo2 \<and>
   unreserved (snd (transitionTo ''state2'' 0 demo2)) \<and>
   currentState (ctx_store (snd (transitionTo ''state2'' 0 demo2)) 0) = ''state2'' \<and>
   contexts demo = [] \<and>
   unreserved (fold perform [PushContext ''main'', Do] demo) \<and>
   map (\<lambda>r. currentState (ctx_store (fold perform [PushContext ''main'', Do] demo) r))
     (contexts (fold perform [PushContext ''main'', Do] demo)) = [''state1'']"
proof -
  have a: "unreserved demo2" by (simp add: unreserved_def demo_defs)
  have b: "contexts demo = []" by (simp add: demo_defs)
  have c: "currentState (ctx_store (snd (transitionTo ''state2'' 0 demo2)) 0) = ''state2''"
    by (simp add: demo_defs engine_defs Let_def)
  have d: "map (\<lambda>r. currentState (ctx_store (fold perform [PushContext ''main'', Do] demo) r))
     (contexts (fold perform [PushContext ''main'', Do] demo)) = [''state1'']"
    by (simp add: demo_defs engine_defs Let_def doLoop.simps)
  from currentState_never_reserved [of demo2 "''main''" "''state2''" 0 empty_event 0
      "[PushContext ''main'', Do]"]
    currentState_never_reserved [of demo "''main''" "''state2''" 0 empty_event 0
      "[PushContext ''main'', Do]"]
    a b c d
  show ?thesis by simp
qed

text \<open>
  C9, the other reserved names. The state of a context is not always \<^verbatim>\<open>@start\<close> or an
  ordinary state name: \<^verbatim>\<open>@finalize\<close> is a reserved name that \<^verbatim>\<open>_transitionTo\<close> does not
  intercept. Asked for \<^verbatim>\<open>@finalize\<close>, the ordinary branch makes it the state of the
  context, which stays on the stack, and returns \<^verbatim>\<open>true\<close>: here for the child context of
  the example stack, whose system defines \<^verbatim>\<open>@finalize\<close>.
\<close>

theorem currentState_can_be_finalize:
  "unreserved demo2 \<and>
   currentState (ctx_store demo2 1) = ''sub-state'' \<and>
   fst (transitionTo ''@finalize'' 1 demo2) = Returned True \<and>
   contexts (snd (transitionTo ''@finalize'' 1 demo2)) = [0, 1] \<and>
   currentState (ctx_store (snd (transitionTo ''@finalize'' 1 demo2)) 1) = ''@finalize''"
  by (simp add: unreserved_def demo_defs engine_defs Let_def)



text \<open>
  C8. The queue is first in, first out. \<^verbatim>\<open>pushEvent\<close> appends its argument, or the empty
  event when there is none, at the tail. A step with an empty queue waits; a step with a
  non-empty queue takes exactly the head, leaves the rest followed by what was pushed
  during the step, and every offer it makes is of the event it took. So after any
  sequence of calls the events taken so far, in the order they were taken, followed by
  the events still queued, are the events pushed so far in the order they were pushed.
\<close>

theorem queue_is_fifo:
  "events (pushEvent arg s) = events s @ [case arg of None \<Rightarrow> empty_event | Some e \<Rightarrow> e] \<and>
   (events s = [] \<longrightarrow> do s = None) \<and>
   (events s = e # es \<longrightarrow>
      (\<exists>out s' t n. do s = Some (out, s') \<and> trace s' = trace s @ Shifted e # t \<and>
         shiftedEvents t = [] \<and> events s' = es @ pushedEvents t \<and>
         map snd (dispatches t) = replicate n e)) \<and>
   (fifo s \<longrightarrow> fifo (fold perform reqs s))"
proof -
  have "events (pushEvent arg s) =
      events s @ [case arg of None \<Rightarrow> empty_event | Some e \<Rightarrow> e]"
    by (simp add: or_empty_def)
  moreover have "do s = None" if "events s = []"
    using that by (simp add: do_def nextEvent_def)
  moreover have "\<exists>out s' t n. do s = Some (out, s') \<and> trace s' = trace s @ Shifted e # t \<and>
         shiftedEvents t = [] \<and> events s' = es @ pushedEvents t \<and>
         map snd (dispatches t) = replicate n e" if "events s = e # es"
  proof -
    from do_trace [OF that] obtain out s' t k where d: "do s = Some (out, s')"
      "trace s' = trace s @ Shifted e # t" "events s' = es @ pushedEvents t"
      "shiftedEvents t = []" "dispatches t = offered e s 0 k" by blast
    have "map snd (dispatches t) = replicate (length (offered e s 0 k)) e"
      using d(5) offered_events by simp
    then show ?thesis using d by blast
  qed
  moreover have "fifo (fold perform reqs s)" if "fifo s"
    using that by (rule fifo_fold_perform)
  ultimately show ?thesis by blast
qed

theorem queue_is_fifo_witness:
  "events (pushEvent None demo) = [empty_event] \<and>
   events demo = [] \<and> do demo = None \<and>
   events demo_queued = [empty_event] \<and>
   (\<exists>out s' t n. do demo_queued = Some (out, s') \<and>
      trace s' = trace demo_queued @ Shifted empty_event # t \<and> shiftedEvents t = [] \<and>
      events s' = [] @ pushedEvents t \<and> map snd (dispatches t) = replicate n empty_event) \<and>
   events (snd (the (do demo_queued))) = [leaved] \<and>
   fifo demo \<and>
   fifo (fold perform [PushContext ''main'', PushEvent None, PushEvent (Some leaved), Do, Do] demo) \<and>
   shiftedEvents (trace (fold perform
     [PushContext ''main'', PushEvent None, PushEvent (Some leaved), Do, Do] demo)) =
     [enteredEvent ''main'', empty_event] \<and>
   events (fold perform
     [PushContext ''main'', PushEvent None, PushEvent (Some leaved), Do, Do] demo) =
     [leaved, enteredEvent ''sub'']"
proof -
  have a: "events demo = []" "fifo demo" "events demo_queued = [empty_event]"
    by (simp_all add: demo_defs fifo_def)
  have b: "shiftedEvents (trace (fold perform
     [PushContext ''main'', PushEvent None, PushEvent (Some leaved), Do, Do] demo)) =
     [enteredEvent ''main'', empty_event]"
    by (simp add: demo_defs engine_defs Let_def doLoop.simps shiftedEvents_def)
  have c: "events (fold perform
     [PushContext ''main'', PushEvent None, PushEvent (Some leaved), Do, Do] demo) =
     [leaved, enteredEvent ''sub'']"
    by (simp add: demo_defs engine_defs Let_def doLoop.simps)
  have d: "events (snd (the (do demo_queued))) = [leaved]"
    by (simp add: demo_defs engine_defs Let_def doLoop.simps)
  from queue_is_fifo [of None demo empty_event "[]"
      "[PushContext ''main'', PushEvent None, PushEvent (Some leaved), Do, Do]"]
    queue_is_fifo [of None demo_queued empty_event "[]" "[]"] a b c d
  show ?thesis by simp
qed

end
